theory Spec2Isabelle
  imports Complex_Main
begin

section \<open>Machine integers and arrays of the C program\<close>

text \<open>
  The program \<^verbatim>\<open>main.c\<close> computes with \<^verbatim>\<open>int\<close> (32 bit), \<^verbatim>\<open>long long\<close> (64 bit)
  and \<^verbatim>\<open>double\<close>. Signed overflow and an access outside an array are undefined
  behaviour in C; the model makes them the result \<open>None\<close>: every arithmetic operation of
  the source on a machine integer is checked against the range of its type, every array
  access against the length of the array. The goodness-of-fit evaluator computes in
  \<^verbatim>\<open>double\<close> as the machine does (IEEE 754 binary64, rounding to nearest, ties to
  even); the theoretical distribution is modelled in exact real arithmetic, which is what
  the property stated of it stipulates.
\<close>

definition INT_MIN :: int where
  "INT_MIN = - 2147483648"

definition INT_MAX :: int where
  "INT_MAX = 2147483647"

definition LLONG_MIN :: int where
  "LLONG_MIN = - 9223372036854775808"

definition LLONG_MAX :: int where
  "LLONG_MAX = 9223372036854775807"

definition int_chk :: "int \<Rightarrow> int option" where
  "int_chk x = (if INT_MIN \<le> x \<and> x \<le> INT_MAX then Some x else None)"

definition ll_chk :: "int \<Rightarrow> int option" where
  "ll_chk x = (if LLONG_MIN \<le> x \<and> x \<le> LLONG_MAX then Some x else None)"

text \<open>C's \<^verbatim>\<open>%\<close> truncates towards zero: the remainder has the sign of the dividend.\<close>

definition c_rem :: "int \<Rightarrow> int \<Rightarrow> int option" where
  "c_rem a b =
     (if b = 0 then None
      else if a = INT_MIN \<and> b = - 1 then None
      else Some (sgn a * (\<bar>a\<bar> mod \<bar>b\<bar>)))"

text \<open>An array is the list of its elements; \<^verbatim>\<open>a[i]\<close> is defined for \<open>0 \<le> i < length a\<close>.\<close>

definition array_read :: "'a list \<Rightarrow> int \<Rightarrow> 'a option" where
  "array_read a i = (if 0 \<le> i \<and> i < int (length a) then Some (a ! nat i) else None)"

definition array_write :: "'a list \<Rightarrow> int \<Rightarrow> 'a \<Rightarrow> 'a list option" where
  "array_write a i v = (if 0 \<le> i \<and> i < int (length a) then Some (a[nat i := v]) else None)"

text \<open>\<^verbatim>\<open>calloc(n, sizeof ...)\<close> in \<^verbatim>\<open>main\<close>: \<open>n\<close> elements, all zero.\<close>

definition calloc_array :: "int \<Rightarrow> 'a::zero list" where
  "calloc_array n = replicate (nat n) 0"

text \<open>
  The parameters that \<^verbatim>\<open>get_simulation_parameters\<close> lets through: it asks again while
  \<^verbatim>\<open>num_dice <= 0 || num_dice > 10\<close>, while \<^verbatim>\<open>num_sides <= 1 || num_sides > 100\<close> and
  while \<^verbatim>\<open>num_trials <= 0\<close>; \<^verbatim>\<open>num_trials\<close> is a \<^verbatim>\<open>long long\<close>.
\<close>

definition valid_config :: "int \<Rightarrow> int \<Rightarrow> int \<Rightarrow> bool" where
  "valid_config num_dice num_sides num_trials \<longleftrightarrow>
     \<not> (num_dice \<le> 0 \<or> num_dice > 10) \<and>
     \<not> (num_sides \<le> 1 \<or> num_sides > 100) \<and>
     \<not> (num_trials \<le> 0) \<and> num_trials \<le> LLONG_MAX"


section \<open>The combinatorics engine\<close>

text \<open>
  \<^verbatim>\<open>count_sum_combinations_recursive\<close>, lines 76 to 89. The \<^verbatim>\<open>for\<close> loop over the face
  \<^verbatim>\<open>i\<close> is the function \<open>count_loop\<close>, with the loop variable and the accumulator
  \<^verbatim>\<open>total_combinations\<close> as arguments. The test \<^verbatim>\<open>target_sum < dice_remaining || ...\<close>
  evaluates the product only when its first operand is false.
\<close>

function count_sum_combinations_recursive :: "int \<Rightarrow> int \<Rightarrow> int \<Rightarrow> int option"
  and count_loop :: "int \<Rightarrow> int \<Rightarrow> int \<Rightarrow> int \<Rightarrow> int \<Rightarrow> int option"
where
  "count_sum_combinations_recursive dice_remaining target_sum num_sides =
     (if target_sum < dice_remaining then Some 0
      else case int_chk (dice_remaining * num_sides) of
        None \<Rightarrow> None
      | Some p \<Rightarrow>
          if target_sum > p then Some 0
          else if dice_remaining = 0 then Some (if target_sum = 0 then 1 else 0)
          else count_loop dice_remaining target_sum num_sides 1 0)"
| "count_loop dice_remaining target_sum num_sides i total_combinations =
     (if i \<le> num_sides then
        case int_chk (dice_remaining - 1) of
          None \<Rightarrow> None
        | Some d' \<Rightarrow>
        case int_chk (target_sum - i) of
          None \<Rightarrow> None
        | Some t' \<Rightarrow>
        case count_sum_combinations_recursive d' t' num_sides of
          None \<Rightarrow> None
        | Some c \<Rightarrow>
        case ll_chk (total_combinations + c) of
          None \<Rightarrow> None
        | Some total' \<Rightarrow>
        case int_chk (i + 1) of
          None \<Rightarrow> None
        | Some i' \<Rightarrow> count_loop dice_remaining target_sum num_sides i' total'
      else Some total_combinations)"
  by pat_completeness auto
termination
proof (relation "measures
    [\<lambda>x. case x of Inl (d, t, s) \<Rightarrow> nat (d - INT_MIN)
                 | Inr (d, t, s, i, tot) \<Rightarrow> nat (d - INT_MIN),
     \<lambda>x. case x of Inl (d, t, s) \<Rightarrow> Suc (nat s)
                 | Inr (d, t, s, i, tot) \<Rightarrow> nat (s + 1 - i)]", goal_cases)
  case 1
  show ?case by simp
next
  case 2
  then show ?case by simp
next
  case 3
  then show ?case by (auto simp: int_chk_def split: if_splits)
next
  case 4
  then show ?case by (auto simp: int_chk_def split: if_splits)
qed

declare count_sum_combinations_recursive.simps [simp del]
declare count_loop.simps [simp del]

text \<open>
  The recursive calls of one activation, read off the same lines: an activation that is
  not pruned and has dice left calls itself with \<^verbatim>\<open>dice_remaining - 1\<close> and
  \<^verbatim>\<open>target_sum - i\<close> for faces \<open>i\<close> from 1 to \<^verbatim>\<open>num_sides\<close> (a loop that stops
  early on an overflow makes the first of these calls only). A chain of calls is a list
  of activations, each called by the one before: its length is a recursion depth.
\<close>

definition makes_call :: "int \<times> int \<times> int \<Rightarrow> int \<times> int \<times> int \<Rightarrow> bool" where
  "makes_call a b =
     (case a of (dice_remaining, target_sum, num_sides) \<Rightarrow>
        \<not> target_sum < dice_remaining \<and>
        (case int_chk (dice_remaining * num_sides) of
           None \<Rightarrow> False
         | Some p \<Rightarrow>
             \<not> target_sum > p \<and> dice_remaining \<noteq> 0 \<and>
             (\<exists>i \<in> set [1..num_sides].
                b = (dice_remaining - 1, target_sum - i, num_sides))))"

fun call_chain :: "int \<times> int \<times> int \<Rightarrow> (int \<times> int \<times> int) list \<Rightarrow> bool" where
  "call_chain a [] = True"
| "call_chain a (b # bs) = (makes_call a b \<and> call_chain b bs)"

text \<open>
  What the engine is to compute, in the words of its contract: the tuples of \<open>n\<close> face
  values, each from 1 to \<open>s\<close>, and the number of them whose sum is \<open>t\<close>.
\<close>

definition face_tuples :: "nat \<Rightarrow> int \<Rightarrow> int list list" where
  "face_tuples n s = List.n_lists n [1..s]"

definition tuples_with_sum :: "nat \<Rightarrow> int \<Rightarrow> int \<Rightarrow> nat" where
  "tuples_with_sum n s t = length (filter (\<lambda>xs. sum_list xs = t) (face_tuples n s))"


section \<open>The theoretical distribution\<close>

text \<open>
  \<^verbatim>\<open>calculate_theoretical_counts\<close>, lines 94 to 104. \<^verbatim>\<open>pow(num_sides, num_dice)\<close> is
  the power of the real number \<^verbatim>\<open>num_sides\<close> with the integer exponent \<^verbatim>\<open>num_dice\<close>.
\<close>

function theoretical_loop ::
  "int \<Rightarrow> int \<Rightarrow> int \<Rightarrow> real \<Rightarrow> int \<Rightarrow> int \<Rightarrow> real list \<Rightarrow> real list option"
where
  "theoretical_loop num_dice num_sides num_trials total_possible_outcomes cur_sum max_sum
       expected_counts =
     (if cur_sum \<le> max_sum then
        case count_sum_combinations_recursive num_dice cur_sum num_sides of
          None \<Rightarrow> None
        | Some ways_to_make_sum \<Rightarrow>
            let probability = real_of_int ways_to_make_sum / total_possible_outcomes in
            case array_write expected_counts cur_sum (probability * real_of_int num_trials) of
              None \<Rightarrow> None
            | Some expected_counts' \<Rightarrow>
            case int_chk (cur_sum + 1) of
              None \<Rightarrow> None
            | Some next_sum \<Rightarrow>
                theoretical_loop num_dice num_sides num_trials total_possible_outcomes
                  next_sum max_sum expected_counts'
      else Some expected_counts)"
  by pat_completeness auto
termination
  by (relation "measure (\<lambda>(d, s, n, tot, k, max_sum, e). nat (max_sum + 1 - k))")
    (auto simp: int_chk_def split: if_splits)

declare theoretical_loop.simps [simp del]

definition calculate_theoretical_counts ::
  "int \<Rightarrow> int \<Rightarrow> int \<Rightarrow> real list \<Rightarrow> real list option"
where
  "calculate_theoretical_counts num_dice num_sides num_trials expected_counts =
     (let min_sum = num_dice in
      case int_chk (num_dice * num_sides) of
        None \<Rightarrow> None
      | Some max_sum \<Rightarrow>
          let total_possible_outcomes = power_int (real_of_int num_sides) num_dice in
          theoretical_loop num_dice num_sides num_trials total_possible_outcomes
            min_sum max_sum expected_counts)"


section \<open>The simulation engine\<close>

text \<open>
  \<^verbatim>\<open>run_simulation\<close>, lines 109 to 117. The generator behind \<^verbatim>\<open>rand()\<close> is a sequence
  \<open>rnd\<close> of draws and the number \<open>pos\<close> of draws made so far: a call returns
  \<open>rnd pos\<close> and moves to \<open>Suc pos\<close>. \<open>roll_loop\<close> is the inner loop over the dice,
  \<open>trial_loop\<close> the outer loop over the trials.
\<close>

function roll_loop ::
  "int \<Rightarrow> int \<Rightarrow> (nat \<Rightarrow> int) \<Rightarrow> nat \<Rightarrow> int \<Rightarrow> int \<Rightarrow> (nat \<times> int) option"
where
  "roll_loop num_dice num_sides rnd pos j current_sum =
     (if j < num_dice then
        case c_rem (rnd pos) num_sides of
          None \<Rightarrow> None
        | Some r \<Rightarrow>
        case int_chk (r + 1) of
          None \<Rightarrow> None
        | Some face \<Rightarrow>
        case int_chk (current_sum + face) of
          None \<Rightarrow> None
        | Some current_sum' \<Rightarrow>
        case int_chk (j + 1) of
          None \<Rightarrow> None
        | Some j' \<Rightarrow> roll_loop num_dice num_sides rnd (Suc pos) j' current_sum'
      else Some (pos, current_sum))"
  by pat_completeness auto
termination
  by (relation "measure (\<lambda>(d, s, rnd, pos, j, cs). nat (d - j))")
    (auto simp: int_chk_def split: if_splits)

declare roll_loop.simps [simp del]

function trial_loop ::
  "int \<Rightarrow> int \<Rightarrow> int \<Rightarrow> (nat \<Rightarrow> int) \<Rightarrow> int \<Rightarrow> nat \<Rightarrow> int list \<Rightarrow> (nat \<times> int list) option"
where
  "trial_loop num_dice num_sides num_trials rnd i pos observed_counts =
     (if i < num_trials then
        case roll_loop num_dice num_sides rnd pos 0 0 of
          None \<Rightarrow> None
        | Some (pos', current_sum) \<Rightarrow>
        case array_read observed_counts current_sum of
          None \<Rightarrow> None
        | Some c \<Rightarrow>
        case ll_chk (c + 1) of
          None \<Rightarrow> None
        | Some c' \<Rightarrow>
        case array_write observed_counts current_sum c' of
          None \<Rightarrow> None
        | Some observed_counts' \<Rightarrow>
        case ll_chk (i + 1) of
          None \<Rightarrow> None
        | Some i' \<Rightarrow> trial_loop num_dice num_sides num_trials rnd i' pos' observed_counts'
      else Some (pos, observed_counts))"
  by pat_completeness auto
termination
  by (relation "measure (\<lambda>(d, s, n, rnd, i, pos, obs). nat (n - i))")
    (auto simp: ll_chk_def split: if_splits)

declare trial_loop.simps [simp del]

definition run_simulation ::
  "int \<Rightarrow> int \<Rightarrow> int \<Rightarrow> (nat \<Rightarrow> int) \<Rightarrow> nat \<Rightarrow> int list \<Rightarrow> (nat \<times> int list) option"
where
  "run_simulation num_dice num_sides num_trials rnd pos observed_counts =
     trial_loop num_dice num_sides num_trials rnd 0 pos observed_counts"

text \<open>
  The sum of the dice of trial number \<open>i\<close>, when the first trial starts at draw \<open>pos\<close>
  and a trial makes \<open>n\<close> draws: the faces are \<open>rnd k mod s + 1\<close> for its draws \<open>k\<close>.
\<close>

definition trial_sum :: "(nat \<Rightarrow> int) \<Rightarrow> nat \<Rightarrow> nat \<Rightarrow> int \<Rightarrow> nat \<Rightarrow> int" where
  "trial_sum rnd pos n s i = (\<Sum>j < n. rnd (pos + i * n + j) mod s + 1)"


section \<open>Double precision\<close>

text \<open>
  A \<^verbatim>\<open>double\<close> is a finite value, an infinity or NaN. The finite values are the reals
  that \<open>round_double\<close> leaves unchanged (\<open>is_double\<close>). The two zeros are one value here:
  they compare equal in C, and they differ only as divisors, so division by zero is left
  out of the model (\<open>ddiv\<close> gives \<open>None\<close>).

  \<open>ulp x\<close> is the spacing of the doubles around \<open>x\<close>: the least power of two \<open>u\<close>, from
  \<open>1 / 2^1074\<close> to \<open>2^971\<close>, with \<open>\<bar>x\<bar> < 2^53 * u\<close>. Rounding takes \<open>x\<close> to the nearest
  multiple of \<open>ulp x\<close>, a tie to the even multiple, and a result of magnitude \<open>2^1024\<close>
  to an infinity.
\<close>

datatype double = Finite real | PlusInf | MinusInf | NaN

fun scale_ulp :: "nat \<Rightarrow> real \<Rightarrow> real \<Rightarrow> real" where
  "scale_ulp 0 u x = u"
| "scale_ulp (Suc n) u x = (if \<bar>x\<bar> < 2 ^ 53 * u then u else scale_ulp n (2 * u) x)"

definition ulp :: "real \<Rightarrow> real" where
  "ulp x = scale_ulp 2045 (1 / 2 ^ 1074) x"

definition round_half_even :: "real \<Rightarrow> int" where
  "round_half_even y =
     (let f = \<lfloor>y\<rfloor>; r = y - of_int f
      in if r < 1 / 2 then f else if r > 1 / 2 then f + 1 else if even f then f else f + 1)"

definition round_double :: "real \<Rightarrow> double" where
  "round_double x =
     (let u = ulp x; r = u * of_int (round_half_even (x / u))
      in if 2 ^ 1024 \<le> r then PlusInf else if r \<le> - (2 ^ 1024) then MinusInf else Finite r)"


text \<open>The conversion of a \<^verbatim>\<open>long long\<close> to \<^verbatim>\<open>double\<close>.\<close>

definition double_of_ll :: "int \<Rightarrow> double" where
  "double_of_ll n = round_double (real_of_int n)"

text \<open>The operations \<^verbatim>\<open>+\<close>, \<^verbatim>\<open>-\<close>, \<^verbatim>\<open>*\<close> and \<^verbatim>\<open>/\<close> on \<^verbatim>\<open>double\<close>, and the tests \<^verbatim>\<open>> 0\<close> and \<^verbatim>\<open>>= 0\<close>.\<close>

fun dneg :: "double \<Rightarrow> double" where
  "dneg (Finite x) = Finite (- x)"
| "dneg PlusInf = MinusInf"
| "dneg MinusInf = PlusInf"
| "dneg NaN = NaN"

fun dadd :: "double \<Rightarrow> double \<Rightarrow> double" where
  "dadd (Finite x) (Finite y) = round_double (x + y)"
| "dadd (Finite x) PlusInf = PlusInf"
| "dadd (Finite x) MinusInf = MinusInf"
| "dadd PlusInf (Finite y) = PlusInf"
| "dadd PlusInf PlusInf = PlusInf"
| "dadd MinusInf (Finite y) = MinusInf"
| "dadd MinusInf MinusInf = MinusInf"
| "dadd a b = NaN"

definition dsub :: "double \<Rightarrow> double \<Rightarrow> double" where
  "dsub a b = dadd a (dneg b)"

fun dmul :: "double \<Rightarrow> double \<Rightarrow> double" where
  "dmul (Finite x) (Finite y) = round_double (x * y)"
| "dmul (Finite x) PlusInf = (if x = 0 then NaN else if 0 < x then PlusInf else MinusInf)"
| "dmul (Finite x) MinusInf = (if x = 0 then NaN else if 0 < x then MinusInf else PlusInf)"
| "dmul PlusInf (Finite y) = (if y = 0 then NaN else if 0 < y then PlusInf else MinusInf)"
| "dmul MinusInf (Finite y) = (if y = 0 then NaN else if 0 < y then MinusInf else PlusInf)"
| "dmul PlusInf PlusInf = PlusInf"
| "dmul PlusInf MinusInf = MinusInf"
| "dmul MinusInf PlusInf = MinusInf"
| "dmul MinusInf MinusInf = PlusInf"
| "dmul a b = NaN"

fun ddiv_nonzero :: "double \<Rightarrow> double \<Rightarrow> double" where
  "ddiv_nonzero (Finite x) (Finite y) = round_double (x / y)"
| "ddiv_nonzero (Finite x) PlusInf = Finite 0"
| "ddiv_nonzero (Finite x) MinusInf = Finite 0"
| "ddiv_nonzero PlusInf (Finite y) = (if 0 < y then PlusInf else MinusInf)"
| "ddiv_nonzero MinusInf (Finite y) = (if 0 < y then MinusInf else PlusInf)"
| "ddiv_nonzero a b = NaN"

definition ddiv :: "double \<Rightarrow> double \<Rightarrow> double option" where
  "ddiv a b = (if b = Finite 0 then None else Some (ddiv_nonzero a b))"

fun dgt_zero :: "double \<Rightarrow> bool" where
  "dgt_zero (Finite x) = (0 < x)"
| "dgt_zero PlusInf = True"
| "dgt_zero d = False"



section \<open>The goodness-of-fit evaluator\<close>

text \<open>
  \<^verbatim>\<open>perform_chi_squared_test\<close>, lines 123 to 132. \<open>chi_squared_body\<close> is the body of the
  loop, \<open>chi_squared_loop\<close> the loop over \<^verbatim>\<open>sum\<close> (\<open>cur_sum\<close> here). The observed count, a
  \<^verbatim>\<open>long long\<close>, is converted to \<^verbatim>\<open>double\<close> in the subtraction; every operation rounds
  its result.
\<close>

definition chi_squared_body :: "int list \<Rightarrow> double list \<Rightarrow> int \<Rightarrow> double \<Rightarrow> double option" where
  "chi_squared_body observed_counts expected_counts cur_sum chi_squared_statistic =
     (case array_read expected_counts cur_sum of
        None \<Rightarrow> None
      | Some e \<Rightarrow>
          if dgt_zero e then
            case array_read observed_counts cur_sum of
              None \<Rightarrow> None
            | Some ob \<Rightarrow>
                let difference = dsub (double_of_ll ob) e in
                case ddiv (dmul difference difference) e of
                  None \<Rightarrow> None
                | Some q \<Rightarrow> Some (dadd chi_squared_statistic q)
          else Some chi_squared_statistic)"

function chi_squared_loop ::
  "int list \<Rightarrow> double list \<Rightarrow> int \<Rightarrow> int \<Rightarrow> double \<Rightarrow> double option"
where
  "chi_squared_loop observed_counts expected_counts cur_sum max_sum chi_squared_statistic =
     (if cur_sum \<le> max_sum then
        case chi_squared_body observed_counts expected_counts cur_sum chi_squared_statistic of
          None \<Rightarrow> None
        | Some chi' \<Rightarrow>
        case int_chk (cur_sum + 1) of
          None \<Rightarrow> None
        | Some next_sum \<Rightarrow> chi_squared_loop observed_counts expected_counts next_sum max_sum chi'
      else Some chi_squared_statistic)"
  by pat_completeness auto
termination
  by (relation "measure (\<lambda>(obs, ex, k, max_sum, chi). nat (max_sum + 1 - k))")
    (auto simp: int_chk_def split: if_splits)

declare chi_squared_loop.simps [simp del]

definition perform_chi_squared_test ::
  "int list \<Rightarrow> double list \<Rightarrow> int \<Rightarrow> int \<Rightarrow> double option"
where
  "perform_chi_squared_test observed_counts expected_counts min_sum max_sum =
     chi_squared_loop observed_counts expected_counts min_sum max_sum (Finite 0)"

text \<open>
  The term of the statistic for an observed count \<open>ob\<close> and an expected count \<open>e > 0\<close>,
  as the body computes it: the difference, its square and the quotient, each rounded.
\<close>

definition chi_squared_term :: "int \<Rightarrow> double \<Rightarrow> double" where
  "chi_squared_term ob e =
     (let difference = dsub (double_of_ll ob) e in ddiv_nonzero (dmul difference difference) e)"


section \<open>Counting tuples of faces\<close>

lemma length_face_tuples: "length (face_tuples n s) = nat s ^ n"
  by (simp add: face_tuples_def length_n_lists)

lemma tuples_with_sum_0: "tuples_with_sum 0 s t = (if t = 0 then 1 else 0)"
  by (simp add: tuples_with_sum_def face_tuples_def)

lemma length_filter_concat:
  "length (filter P (concat xss)) = sum_list (map (\<lambda>xs. length (filter P xs)) xss)"
  by (induction xss) simp_all

lemma length_filter_eq_upto:
  "length (filter (\<lambda>y. y = c) [1..s]) = (if 1 \<le> c \<and> c \<le> s then 1 else 0)"
proof -
  have "{x. x = c} \<inter> {1..s} = (if 1 \<le> c \<and> c \<le> s then {c} else {})"
    by auto
  then show ?thesis
    by (simp add: distinct_length_filter)
qed

lemma sum_list_indicator:
  "sum_list (map (\<lambda>x. if P x then 1 else 0) xs) = length (filter P xs)"
  by (induction xs) simp_all

lemma tuples_with_sum_Suc_window:
  "tuples_with_sum (Suc n) s t =
     length (filter (\<lambda>ys. t - s \<le> sum_list ys \<and> sum_list ys \<le> t - 1) (face_tuples n s))"
proof -
  have inner: "length (filter (\<lambda>xs. sum_list xs = t) (map (\<lambda>y. y # ys) [1..s])) =
      (if t - s \<le> sum_list ys \<and> sum_list ys \<le> t - 1 then 1 else 0)" for ys
  proof -
    have "length (filter (\<lambda>xs. sum_list xs = t) (map (\<lambda>y. y # ys) [1..s])) =
        length (filter (\<lambda>y. y = t - sum_list ys) [1..s])"
      by (simp add: filter_map comp_def algebra_simps eq_diff_eq)
    also have "\<dots> = (if 1 \<le> t - sum_list ys \<and> t - sum_list ys \<le> s then 1 else 0)"
      by (rule length_filter_eq_upto)
    also have "\<dots> = (if t - s \<le> sum_list ys \<and> sum_list ys \<le> t - 1 then 1 else 0)"
      by auto
    finally show ?thesis .
  qed
  have "tuples_with_sum (Suc n) s t =
      (\<Sum>ys\<leftarrow>face_tuples n s. length (filter (\<lambda>xs. sum_list xs = t) (map (\<lambda>y. y # ys) [1..s])))"
    by (simp only: tuples_with_sum_def face_tuples_def n_lists.simps length_filter_concat
        map_map comp_def)
  also have "\<dots> = (\<Sum>ys\<leftarrow>face_tuples n s.
      if t - s \<le> sum_list ys \<and> sum_list ys \<le> t - 1 then 1 else 0)"
    by (simp only: inner)
  also have "\<dots> = length (filter (\<lambda>ys. t - s \<le> sum_list ys \<and> sum_list ys \<le> t - 1)
      (face_tuples n s))"
    by (rule sum_list_indicator)
  finally show ?thesis .
qed

lemma sum_length_filter_eq:
  assumes "finite A"
  shows "(\<Sum>a\<in>A. length (filter (\<lambda>x. f x = a) xs)) = length (filter (\<lambda>x. f x \<in> A) xs)"
proof (induction xs)
  case Nil
  show ?case by simp
next
  case (Cons x xs)
  have "(\<Sum>a\<in>A. length (filter (\<lambda>y. f y = a) (x # xs))) =
      (\<Sum>a\<in>A. (if f x = a then 1 else 0) + length (filter (\<lambda>y. f y = a) xs))"
    by (rule sum.cong) simp_all
  also have "\<dots> = (\<Sum>a\<in>A. if f x = a then 1 else 0) + (\<Sum>a\<in>A. length (filter (\<lambda>y. f y = a) xs))"
    by (rule sum.distrib)
  also have "(\<Sum>a\<in>A. if f x = a then 1 else 0) = (if f x \<in> A then 1 else (0::nat))"
    using assms by simp
  finally show ?case
    using Cons.IH by simp
qed

lemma tuples_with_sum_Suc:
  "tuples_with_sum (Suc n) s t = (\<Sum>i = 1..s. tuples_with_sum n s (t - i))"
proof -
  have "(\<Sum>i = 1..s. tuples_with_sum n s (t - i)) = (\<Sum>a = t - s..t - 1. tuples_with_sum n s a)"
    by (rule sum.reindex_bij_witness [where i = "\<lambda>a. t - a" and j = "\<lambda>i. t - i"]) auto
  also have "\<dots> = length (filter (\<lambda>ys. sum_list ys \<in> {t - s..t - 1}) (face_tuples n s))"
    unfolding tuples_with_sum_def by (rule sum_length_filter_eq) simp
  finally show ?thesis
    by (simp add: tuples_with_sum_Suc_window)
qed

lemma tuples_with_sum_Suc_le: "tuples_with_sum (Suc n) s t \<le> nat s ^ n"
  unfolding tuples_with_sum_Suc_window
  by (rule order_trans [OF length_filter_le]) (simp add: length_face_tuples)

lemma face_tuples_sum_bounds:
  assumes "xs \<in> set (face_tuples n s)"
  shows "int n \<le> sum_list xs \<and> sum_list xs \<le> int n * s"
proof -
  from assms have len: "length xs = n" and faces: "\<forall>x\<in>set xs. 1 \<le> x \<and> x \<le> s"
    by (auto simp: face_tuples_def set_n_lists)
  have "int (length xs) \<le> sum_list xs \<and> sum_list xs \<le> int (length xs) * s"
    using faces by (induction xs) (auto simp: algebra_simps)
  then show ?thesis using len by simp
qed

lemma tuples_with_sum_outside:
  assumes "t < int n \<or> int n * s < t"
  shows "tuples_with_sum n s t = 0"
proof -
  have "filter (\<lambda>xs. sum_list xs = t) (face_tuples n s) = []"
    using assms by (auto simp: filter_empty_conv dest: face_tuples_sum_bounds)
  then show ?thesis by (simp add: tuples_with_sum_def)
qed

lemma tuples_with_sum_total:
  "(\<Sum>t = int n..int n * s. tuples_with_sum n s t) = nat s ^ n"
proof -
  have "(\<Sum>t = int n..int n * s. tuples_with_sum n s t) =
      length (filter (\<lambda>xs. sum_list xs \<in> {int n..int n * s}) (face_tuples n s))"
    unfolding tuples_with_sum_def by (rule sum_length_filter_eq) simp
  also have "filter (\<lambda>xs. sum_list xs \<in> {int n..int n * s}) (face_tuples n s) = face_tuples n s"
    by (auto simp: filter_id_conv dest: face_tuples_sum_bounds)
  finally show ?thesis by (simp add: length_face_tuples)
qed

lemma tuples_with_sum_reflect:
  "tuples_with_sum n s (int n * (s + 1) - t) = tuples_with_sum n s t"
proof (induction n arbitrary: t)
  case 0
  show ?case by (simp add: tuples_with_sum_0)
next
  case (Suc n)
  have "tuples_with_sum (Suc n) s (int (Suc n) * (s + 1) - t) =
      (\<Sum>i = 1..s. tuples_with_sum n s (int (Suc n) * (s + 1) - t - i))"
    by (rule tuples_with_sum_Suc)
  also have "\<dots> = (\<Sum>i = 1..s. tuples_with_sum n s (int n * (s + 1) - (t - (s + 1 - i))))"
    by (rule sum.cong) (simp_all add: algebra_simps)
  also have "\<dots> = (\<Sum>i = 1..s. tuples_with_sum n s (t - (s + 1 - i)))"
    by (simp add: Suc.IH)
  also have "\<dots> = (\<Sum>j = 1..s. tuples_with_sum n s (t - j))"
    by (rule sum.reindex_bij_witness [where i = "\<lambda>j. s + 1 - j" and j = "\<lambda>i. s + 1 - i"]) auto
  also have "\<dots> = tuples_with_sum (Suc n) s t"
    by (rule tuples_with_sum_Suc [symmetric])
  finally show ?case .
qed

text \<open>Every die showing 1 is the only way to make the least sum.\<close>

lemma tuples_with_sum_all_ones:
  assumes "1 \<le> s"
  shows "tuples_with_sum n s (int n) = 1"
proof (induction n)
  case 0
  show ?case by (simp add: tuples_with_sum_0)
next
  case (Suc n)
  have split: "{1..s} = insert 1 {2..s}"
    using assms by auto
  have "tuples_with_sum n s (int (Suc n) - i) = 0" if "i \<in> {2..s}" for i
    using that by (intro tuples_with_sum_outside) simp
  then have "(\<Sum>i = 2..s. tuples_with_sum n s (int (Suc n) - i)) = 0"
    by simp
  then show ?case
    using Suc.IH by (simp add: tuples_with_sum_Suc split)
qed

text \<open>With two-sided dice, the sum \<open>n + k\<close> is made by choosing the \<open>k\<close> dice that show 2.\<close>

lemma tuples_with_sum_two_sides:
  "tuples_with_sum n 2 (int n + int k) = n choose k"
proof (induction n arbitrary: k)
  case 0
  show ?case by (cases k) (simp_all add: tuples_with_sum_0)
next
  case (Suc n)
  have range: "{1..2::int} = {1, 2}"
    by auto
  have rec: "tuples_with_sum (Suc n) 2 (int (Suc n) + int k) =
      tuples_with_sum n 2 (int n + int k) + tuples_with_sum n 2 (int n + int k - 1)"
    by (simp add: tuples_with_sum_Suc range algebra_simps)
  show ?case
  proof (cases k)
    case 0
    have "tuples_with_sum n 2 (int n - 1) = 0"
      by (intro tuples_with_sum_outside) simp
    then show ?thesis
      using rec Suc.IH [of 0] 0 by simp
  next
    case (Suc k')
    then have "int n + int k - 1 = int n + int k'"
      by simp
    then show ?thesis
      using rec Suc.IH [of k] Suc.IH [of k'] Suc by simp
  qed
qed

lemma tuples_with_sum_card:
  "tuples_with_sum n s t =
     card {xs. length xs = n \<and> (\<forall>x\<in>set xs. 1 \<le> x \<and> x \<le> s) \<and> sum_list xs = t}"
proof -
  have "distinct (face_tuples n s)"
    by (simp add: face_tuples_def distinct_n_lists)
  then have "tuples_with_sum n s t = card ({xs. sum_list xs = t} \<inter> set (face_tuples n s))"
    by (simp add: tuples_with_sum_def distinct_length_filter)
  also have "{xs. sum_list xs = t} \<inter> set (face_tuples n s) =
      {xs. length xs = n \<and> (\<forall>x\<in>set xs. 1 \<le> x \<and> x \<le> s) \<and> sum_list xs = t}"
    by (auto simp: face_tuples_def set_n_lists)
  finally show ?thesis .
qed


section \<open>Correctness of the combinatorics engine\<close>

lemma int_chk_Some: "INT_MIN \<le> x \<Longrightarrow> x \<le> INT_MAX \<Longrightarrow> int_chk x = Some x"
  by (simp add: int_chk_def)

lemma int_chk_None: "x < INT_MIN \<or> INT_MAX < x \<Longrightarrow> int_chk x = None"
  by (auto simp: int_chk_def)

lemma ll_chk_Some: "LLONG_MIN \<le> x \<Longrightarrow> x \<le> LLONG_MAX \<Longrightarrow> ll_chk x = Some x"
  by (simp add: ll_chk_def)

lemma ll_chk_None: "x < LLONG_MIN \<or> LLONG_MAX < x \<Longrightarrow> ll_chk x = None"
  by (auto simp: ll_chk_def)

lemma count_loop_char:
  assumes sub: "\<And>j. i \<le> j \<Longrightarrow> j \<le> s \<Longrightarrow>
      count_sum_combinations_recursive (d - 1) (t - j) s =
        (if g j \<le> LLONG_MAX then Some (g j) else None)"
    and g0: "\<And>j. 0 \<le> g j"
    and d: "1 \<le> d" "d \<le> INT_MAX"
    and t: "\<And>j. i \<le> j \<Longrightarrow> j \<le> s \<Longrightarrow> INT_MIN \<le> t - j \<and> t - j \<le> INT_MAX"
    and s: "s < INT_MAX"
    and i: "1 \<le> i"
    and tot: "0 \<le> acc" "acc \<le> LLONG_MAX"
  shows "count_loop d t s i acc =
    (if acc + (\<Sum>j = i..s. g j) \<le> LLONG_MAX then Some (acc + (\<Sum>j = i..s. g j)) else None)"
  using sub t i tot
proof (induction "nat (s + 1 - i)" arbitrary: i acc)
  case 0
  then have "\<not> i \<le> s" by simp
  then show ?case
    using "0.prems" by (subst count_loop.simps) simp
next
  case (Suc k)
  then have i_le: "i \<le> s" by linarith
  have split: "(\<Sum>j = i..s. g j) = g i + (\<Sum>j = i + 1..s. g j)"
  proof -
    have "{i..s} = insert i {i + 1..s}" using i_le by auto
    then show ?thesis by simp
  qed
  have rest0: "0 \<le> (\<Sum>j = i + 1..s. g j)"
    by (rule sum_nonneg) (simp add: g0)
  have c1: "int_chk (d - 1) = Some (d - 1)"
    using d by (simp add: int_chk_def INT_MIN_def INT_MAX_def)
  have c2: "int_chk (t - i) = Some (t - i)"
    using Suc.prems(2) [of i] i_le by (simp add: int_chk_def)
  have c3: "int_chk (i + 1) = Some (i + 1)"
    using i_le s Suc.prems(3) by (simp add: int_chk_def INT_MIN_def)
  have subi: "count_sum_combinations_recursive (d - 1) (t - i) s =
        (if g i \<le> LLONG_MAX then Some (g i) else None)"
    using Suc.prems(1) [of i] i_le by simp
  show ?case
  proof (cases "g i \<le> LLONG_MAX \<and> acc + g i \<le> LLONG_MAX")
    case False
    then have "\<not> acc + (\<Sum>j = i..s. g j) \<le> LLONG_MAX"
      using split rest0 Suc.prems(4) g0 [of i] by linarith
    moreover have "count_loop d t s i acc = None"
      using False i_le c1 c2 subi Suc.prems(4) g0 [of i]
      by (subst count_loop.simps) (auto simp: ll_chk_def)
    ultimately show ?thesis by simp
  next
    case True
    then have c4: "ll_chk (acc + g i) = Some (acc + g i)"
      using Suc.prems(4) g0 [of i] by (simp add: ll_chk_def LLONG_MIN_def)
    have step: "count_loop d t s i acc = count_loop d t s (i + 1) (acc + g i)"
      using True i_le c1 c2 c3 c4 subi by (subst count_loop.simps) simp
    have "count_loop d t s (i + 1) (acc + g i) =
      (if acc + g i + (\<Sum>j = i + 1..s. g j) \<le> LLONG_MAX
       then Some (acc + g i + (\<Sum>j = i + 1..s. g j)) else None)"
    proof (rule Suc.hyps(1))
      show "k = nat (s + 1 - (i + 1))" using Suc.hyps(2) by linarith
    next
      fix j assume "i + 1 \<le> j" "j \<le> s"
      then show "count_sum_combinations_recursive (d - 1) (t - j) s =
        (if g j \<le> LLONG_MAX then Some (g j) else None)"
        using Suc.prems(1) [of j] by simp
    next
      fix j assume "i + 1 \<le> j" "j \<le> s"
      then show "INT_MIN \<le> t - j \<and> t - j \<le> INT_MAX"
        using Suc.prems(2) [of j] by simp
    next
      show "1 \<le> i + 1" using Suc.prems(3) by simp
    next
      show "0 \<le> acc + g i" using Suc.prems(4) g0 [of i] by simp
    next
      show "acc + g i \<le> LLONG_MAX" using True by simp
    qed
    then show ?thesis
      using step split by (simp add: add.assoc)
  qed
qed

lemma count_char:
  assumes "0 \<le> d" "0 \<le> s" "d * s \<le> INT_MAX" "s < INT_MAX"
  shows "count_sum_combinations_recursive d t s =
    (if int (tuples_with_sum (nat d) s t) \<le> LLONG_MAX
     then Some (int (tuples_with_sum (nat d) s t)) else None)"
  using assms
proof (induction "nat d" arbitrary: d t)
  case 0
  then have d0: "d = 0" by simp
  show ?case
    unfolding d0
    by (subst count_sum_combinations_recursive.simps)
      (simp add: int_chk_def INT_MIN_def INT_MAX_def tuples_with_sum_0 LLONG_MAX_def)
next
  case (Suc n)
  then have d1: "1 \<le> d" and nd: "nat d = Suc n" and n: "n = nat (d - 1)"
    by linarith+
  have "0 \<le> d * s"
    using Suc.prems by simp
  then have "INT_MIN \<le> d * s"
    unfolding INT_MIN_def by linarith
  then have prod: "int_chk (d * s) = Some (d * s)"
    using Suc.prems(3) by (simp add: int_chk_def)
  show ?case
  proof (cases "t < d \<or> d * s < t")
    case True
    then have "tuples_with_sum (nat d) s t = 0"
      using Suc.prems(1) by (intro tuples_with_sum_outside) simp
    moreover have "count_sum_combinations_recursive d t s = Some 0"
      using True prod by (subst count_sum_combinations_recursive.simps) auto
    ultimately show ?thesis by (simp add: LLONG_MAX_def)
  next
    case False
    then have tr: "d \<le> t" "t \<le> d * s" by simp_all
    have dle: "d \<le> INT_MAX"
    proof -
      have "1 \<le> s" using tr d1 Suc.prems(2)
        by (metis mult_zero_right not_less order_trans zero_less_one_class.zero_le_one
            int_one_le_iff_zero_less less_le) 
      then have "d * 1 \<le> d * s" using Suc.prems(1) by (intro mult_left_mono) simp_all
      then show ?thesis using Suc.prems(3) by simp
    qed
    have unfold: "count_sum_combinations_recursive d t s = count_loop d t s 1 0"
      using False prod d1 by (subst count_sum_combinations_recursive.simps) auto
    have "(d - 1) * s \<le> d * s"
      using Suc.prems(2) by (intro mult_right_mono) simp_all
    then have prod': "(d - 1) * s \<le> INT_MAX"
      using Suc.prems(3) by simp
    have loop: "count_loop d t s 1 0 =
      (if 0 + (\<Sum>j = 1..s. int (tuples_with_sum n s (t - j))) \<le> LLONG_MAX
       then Some (0 + (\<Sum>j = 1..s. int (tuples_with_sum n s (t - j)))) else None)"
    proof (rule count_loop_char)
      fix j assume "1 \<le> j" "j \<le> s"
      show "count_sum_combinations_recursive (d - 1) (t - j) s =
        (if int (tuples_with_sum n s (t - j)) \<le> LLONG_MAX
         then Some (int (tuples_with_sum n s (t - j))) else None)"
        using Suc.hyps(1) [of "d - 1" "t - j"] n d1 Suc.prems(2,4) prod' by simp
    next
      fix j assume "1 \<le> j" "j \<le> s"
      then show "INT_MIN \<le> t - j \<and> t - j \<le> INT_MAX"
        using tr d1 Suc.prems(3,4) by (simp add: INT_MIN_def INT_MAX_def)
    next
      show "0 \<le> (0::int)" "(0::int) \<le> LLONG_MAX"
        by (simp_all add: LLONG_MAX_def)
    qed (simp_all add: d1 dle Suc.prems)
    have "(\<Sum>j = 1..s. int (tuples_with_sum n s (t - j))) = int (tuples_with_sum (nat d) s t)"
      by (simp add: nd tuples_with_sum_Suc)
    then show ?thesis
      using unfold loop by simp
  qed
qed

text \<open>With \<open>INT_MAX\<close> sides the loop cannot finish: its last \<^verbatim>\<open>i++\<close> overflows.\<close>

lemma count_loop_INT_MAX:
  assumes "s = INT_MAX" "i \<le> s"
  shows "count_loop d t s i acc = None"
  using assms
proof (induction "nat (s - i)" arbitrary: i acc)
  case 0
  then have "i = INT_MAX" by simp
  then show ?case
    using "0.prems"
    by (subst count_loop.simps) (simp add: int_chk_def INT_MAX_def split: option.splits)
next
  case (Suc k)
  then have "count_loop d t s (i + 1) acc' = None" for acc'
    by (intro Suc.hyps(1)) linarith+
  then show ?case
    using Suc.prems
    by (subst count_loop.simps) (simp add: int_chk_def split: option.splits)
qed

lemma count_valid_range:
  assumes "1 \<le> d" "d \<le> 10" "2 \<le> s" "s \<le> 100"
  shows "count_sum_combinations_recursive d t s = Some (int (tuples_with_sum (nat d) s t))"
proof -
  obtain n where n: "nat d = Suc n" "n \<le> 9"
    using assms by (cases "nat d") auto
  have "nat s ^ n \<le> 100 ^ n"
    using assms by (intro power_mono) simp_all
  also have "\<dots> \<le> (100::nat) ^ 9"
    using n by (intro power_increasing) simp_all
  finally have "tuples_with_sum (nat d) s t \<le> 100 ^ 9"
    using tuples_with_sum_Suc_le [of n s t] n by simp
  then have "int (tuples_with_sum (nat d) s t) \<le> int (100 ^ 9)"
    by (simp only: of_nat_le_iff)
  then have small: "int (tuples_with_sum (nat d) s t) \<le> LLONG_MAX"
    by (simp add: LLONG_MAX_def)
  have "d * s \<le> 10 * 100"
    using assms by (intro mult_mono) simp_all
  then have "d * s \<le> INT_MAX"
    by (simp add: INT_MAX_def)
  then show ?thesis
    using count_char [of d s t] assms small by (simp add: INT_MAX_def)
qed

text \<open>
  Claim C1, as amended. For \<open>dice_remaining \<ge> 0\<close> and \<open>num_sides \<ge> 2\<close> such that
  the product \<open>dice_remaining * num_sides\<close> fits an \<^verbatim>\<open>int\<close>, \<open>num_sides\<close> is below
  \<open>INT_MAX\<close> and the number of tuples fits a \<^verbatim>\<open>long long\<close>, the function returns, for
  every \<open>target_sum\<close>, exactly the number of tuples of \<open>dice_remaining\<close> face values,
  each from 1 to \<open>num_sides\<close>, whose sum is \<open>target_sum\<close>: the number
  \<open>tuples_with_sum\<close>, which is the cardinality of the set of these tuples.
\<close>

theorem count_sum_combinations_exact:
  assumes "0 \<le> dice_remaining" and "2 \<le> num_sides"
    and "dice_remaining * num_sides \<le> INT_MAX" and "num_sides < INT_MAX"
    and "int (tuples_with_sum (nat dice_remaining) num_sides target_sum) \<le> LLONG_MAX"
  shows "count_sum_combinations_recursive dice_remaining target_sum num_sides =
      Some (int (tuples_with_sum (nat dice_remaining) num_sides target_sum)) \<and>
    tuples_with_sum (nat dice_remaining) num_sides target_sum =
      card {faces. length faces = nat dice_remaining \<and>
        (\<forall>x \<in> set faces. 1 \<le> x \<and> x \<le> num_sides) \<and> sum_list faces = target_sum}"
  using count_char [of dice_remaining num_sides target_sum] assms
  by (simp add: tuples_with_sum_card)

theorem count_sum_combinations_exact_witness:
  "(0::int) \<le> 2 \<and> (2::int) \<le> 6 \<and> (2::int) * 6 \<le> INT_MAX \<and> (6::int) < INT_MAX \<and>
   int (tuples_with_sum (nat 2) 6 7) \<le> LLONG_MAX \<and>
   count_sum_combinations_recursive 2 7 6 = Some (int (tuples_with_sum (nat 2) 6 7)) \<and>
   tuples_with_sum (nat 2) 6 7 =
     card {faces. length faces = nat 2 \<and> (\<forall>x \<in> set faces. 1 \<le> x \<and> x \<le> (6::int)) \<and>
       sum_list faces = 7} \<and>
   tuples_with_sum (nat 2) 6 7 = 6"
proof -
  have h: "int (tuples_with_sum (nat 2) 6 7) \<le> LLONG_MAX"
    by code_simp
  have r: "(0::int) \<le> 2" "(2::int) \<le> 6" "(2::int) * 6 \<le> INT_MAX" "(6::int) < INT_MAX"
    by (simp_all add: INT_MAX_def)
  have v: "tuples_with_sum (nat 2) 6 7 = 6"
    by code_simp
  show ?thesis
    using count_sum_combinations_exact [of 2 6 7, OF r h] r h v by blast
qed

text \<open>
  Claim C1 as stated, for every \<open>dice_remaining \<ge> 0\<close>, fails: with 1073741824 dice of
  two sides and the target 1073741824 (every die shows 1) the product
  \<^verbatim>\<open>dice_remaining * num_sides\<close> overflows \<^verbatim>\<open>int\<close>: the call has no defined result,
  while there is exactly one such tuple.
\<close>

theorem count_sum_combinations_overflow_counterexample:
  "(0::int) \<le> 1073741824 \<and> (2::int) \<le> 2 \<and>
   count_sum_combinations_recursive 1073741824 1073741824 2 = None \<and>
   tuples_with_sum (nat 1073741824) 2 1073741824 = 1"
proof -
  have "count_sum_combinations_recursive 1073741824 1073741824 2 = None"
    by (subst count_sum_combinations_recursive.simps)
      (simp add: int_chk_def INT_MAX_def INT_MIN_def)
  moreover have "tuples_with_sum (nat 1073741824) 2 (int (nat 1073741824)) = 1"
    by (rule tuples_with_sum_all_ones) simp
  ultimately show ?thesis by simp
qed

text \<open>
  The other two conditions of the amended claim are needed as well. 67 two-sided dice make
  the sum 100 in more than \<open>LLONG_MAX\<close> ways, so the additions in \<^verbatim>\<open>long long\<close>
  overflow; and with \<open>INT_MAX\<close> sides the loop variable \<^verbatim>\<open>i\<close> overflows in the
  last \<^verbatim>\<open>i++\<close>.
\<close>

lemma count_sum_combinations_long_long_overflow:
  "count_sum_combinations_recursive 67 100 2 = None"
proof -
  have "tuples_with_sum 67 2 (int 67 + int 33) = 67 choose 33"
    by (rule tuples_with_sum_two_sides)
  also have "(67::nat) choose 33 = 14226520737620288370"
    using binomial_fact_lemma [of 33 67] by (simp add: fact_numeral)
  finally have "int (tuples_with_sum (nat 67) 2 100) = 14226520737620288370"
    by simp
  then show ?thesis
    using count_char [of 67 2 100] by (simp add: INT_MAX_def LLONG_MAX_def)
qed

lemma count_sum_combinations_loop_counter_overflow:
  "count_sum_combinations_recursive 1 5 2147483647 = None"
proof -
  have "count_loop 1 5 2147483647 1 0 = None"
    by (rule count_loop_INT_MAX) (simp_all add: INT_MAX_def)
  then show ?thesis
    by (subst count_sum_combinations_recursive.simps) (simp add: int_chk_def INT_MIN_def INT_MAX_def)
qed

text \<open>
  Claim C2. For \<open>dice_remaining \<ge> 0\<close>, \<open>num_sides \<ge> 2\<close> and a \<open>target_sum\<close> of type
  \<^verbatim>\<open>int\<close>, the function returns 0 whenever \<open>target_sum < dice_remaining\<close> or
  \<open>target_sum > dice_remaining * num_sides\<close>; with no dice left it returns 1 for the
  target 0 and 0 for any other target.
\<close>

theorem count_sum_combinations_pruning:
  assumes "0 \<le> dice_remaining" and "2 \<le> num_sides" and "target_sum \<le> INT_MAX"
  shows "(target_sum < dice_remaining \<or> target_sum > dice_remaining * num_sides \<longrightarrow>
           count_sum_combinations_recursive dice_remaining target_sum num_sides = Some 0) \<and>
         (dice_remaining = 0 \<longrightarrow>
           count_sum_combinations_recursive dice_remaining target_sum num_sides =
             Some (if target_sum = 0 then 1 else 0))"
proof -
  have "0 \<le> dice_remaining * num_sides"
    using assms by simp
  then have lo: "INT_MIN \<le> dice_remaining * num_sides"
    unfolding INT_MIN_def by linarith
  show ?thesis
    using assms(3) lo
    by (subst (1 2) count_sum_combinations_recursive.simps) (auto simp: int_chk_def)
qed

theorem count_sum_combinations_pruning_witness:
  "(0::int) \<le> 2 \<and> (2::int) \<le> 6 \<and> (13::int) \<le> INT_MAX \<and> (13::int) > 2 * 6 \<and>
   count_sum_combinations_recursive 2 13 6 = Some 0 \<and>
   (0::int) \<le> 0 \<and> (0::int) \<le> INT_MAX \<and>
   count_sum_combinations_recursive 0 0 6 = Some 1 \<and>
   count_sum_combinations_recursive 0 5 6 = Some 0"
  using count_sum_combinations_pruning [of 2 6 13]
    count_sum_combinations_pruning [of 0 6 0] count_sum_combinations_pruning [of 0 6 5]
  by (simp add: INT_MAX_def)

text \<open>
  Claim C6. For \<open>dice_count \<ge> 0\<close>, \<open>num_sides \<ge> 2\<close> and every sum \<open>s\<close> from
  \<open>dice_count\<close> to \<open>dice_count * num_sides\<close>, the function gives the same result for
  \<open>s\<close> and for the reflected sum \<open>dice_count * (num_sides + 1) - s\<close>. Where the
  arithmetic overflows, it does so for both sums.
\<close>

theorem count_sum_combinations_symmetric:
  assumes "0 \<le> dice_count" and "2 \<le> num_sides"
    and "dice_count \<le> s" and "s \<le> dice_count * num_sides"
  shows "count_sum_combinations_recursive dice_count s num_sides =
    count_sum_combinations_recursive dice_count (dice_count * (num_sides + 1) - s) num_sides"
proof -
  let ?r = "dice_count * (num_sides + 1) - s"
  have r: "dice_count \<le> ?r" "?r \<le> dice_count * num_sides"
    using assms by (simp_all add: algebra_simps)
  consider (zero) "dice_count = 0"
    | (big) "1 \<le> dice_count" "INT_MAX < dice_count * num_sides"
    | (loop) "1 \<le> dice_count" "dice_count * num_sides \<le> INT_MAX" "num_sides = INT_MAX"
    | (fits) "1 \<le> dice_count" "dice_count * num_sides \<le> INT_MAX" "num_sides < INT_MAX"
  proof -
    have "num_sides \<le> INT_MAX" if "1 \<le> dice_count" "dice_count * num_sides \<le> INT_MAX"
    proof -
      have "1 * num_sides \<le> dice_count * num_sides"
        using that assms(2) by (intro mult_right_mono) simp_all
      then show ?thesis using that by simp
    qed
    then show ?thesis
      using assms(1) zero big loop fits by fastforce
  qed
  then show ?thesis
  proof cases
    case zero
    then show ?thesis using assms by simp
  next
    case big
    then have "int_chk (dice_count * num_sides) = None"
      by (simp add: int_chk_def)
    then show ?thesis
      using assms(3) r(1) by (subst (1 2) count_sum_combinations_recursive.simps) simp
  next
    case loop
    have prod: "int_chk (dice_count * num_sides) = Some (dice_count * num_sides)"
      using loop assms by (simp add: int_chk_def INT_MIN_def INT_MAX_def)
    have "count_loop dice_count t num_sides 1 0 = None" for t
      using loop by (intro count_loop_INT_MAX) (simp_all add: INT_MAX_def)
    then show ?thesis
      using assms(3,4) r loop(1) prod
      by (subst (1 2) count_sum_combinations_recursive.simps) simp
  next
    case fits
    have "tuples_with_sum (nat dice_count) num_sides ?r = tuples_with_sum (nat dice_count) num_sides s"
      using tuples_with_sum_reflect [of "nat dice_count" num_sides s] assms(1) by simp
    then show ?thesis
      using count_char [of dice_count num_sides] fits assms by simp
  qed
qed

theorem count_sum_combinations_symmetric_witness:
  "(0::int) \<le> 2 \<and> (2::int) \<le> 6 \<and> (2::int) \<le> 3 \<and> (3::int) \<le> 2 * 6 \<and>
   count_sum_combinations_recursive 2 3 6 = count_sum_combinations_recursive 2 (2 * (6 + 1) - 3) 6 \<and>
   count_sum_combinations_recursive 2 3 6 = Some 2"
proof -
  have v: "count_sum_combinations_recursive 2 3 6 = Some 2"
    by code_simp
  show ?thesis
    using count_sum_combinations_symmetric [of 2 6 3] v by simp
qed

text \<open>
  Claim C8. The known values: 6 ways to make 7 with two six-sided dice, 1 way to make 3
  with one, 1 way to make 3 with three, no way to make 13 with two.
\<close>

theorem count_sum_combinations_known_values:
  "count_sum_combinations_recursive 2 7 6 = Some 6 \<and>
   count_sum_combinations_recursive 1 3 6 = Some 1 \<and>
   count_sum_combinations_recursive 3 3 6 = Some 1 \<and>
   count_sum_combinations_recursive 2 13 6 = Some 0"
  by code_simp

lemma tuples_with_sum_callee_le:
  assumes "1 \<le> i" "i \<le> s"
  shows "tuples_with_sum n s (t - i) \<le> tuples_with_sum (Suc n) s t"
proof -
  have "tuples_with_sum n s (t - i) \<le> (\<Sum>j = 1..s. tuples_with_sum n s (t - j))"
    using assms by (intro member_le_sum) simp_all
  then show ?thesis
    by (simp add: tuples_with_sum_Suc)
qed

lemma makes_call_returns:
  assumes call: "makes_call (d, t, s) (d', t', s')"
    and ok: "0 \<le> d" "0 \<le> s" "d * s \<le> INT_MAX"
      "int (tuples_with_sum (nat d) s t) \<le> LLONG_MAX"
  shows "d' = d - 1 \<and> s' = s \<and> 0 \<le> d' \<and> d' * s' \<le> INT_MAX \<and>
    int (tuples_with_sum (nat d') s' t') \<le> LLONG_MAX"
proof -
  from call obtain i where i: "1 \<le> i" "i \<le> s" and d: "d \<noteq> 0"
    and eq: "d' = d - 1" "t' = t - i" "s' = s"
    by (auto simp: makes_call_def split: option.splits)
  from d ok(1) have d1: "1 \<le> d" by simp
  then obtain n where n: "nat d = Suc n" "nat (d - 1) = n"
    by (cases "nat d") auto
  have "(d - 1) * s \<le> d * s"
    using ok(2) by (intro mult_right_mono) simp_all
  moreover have "tuples_with_sum n s (t - i) \<le> tuples_with_sum (Suc n) s t"
    using i by (rule tuples_with_sum_callee_le)
  ultimately show ?thesis
    using eq d1 ok(3,4) n by simp
qed

text \<open>
  Claim C9, as amended. For \<open>dice_remaining \<ge> 0\<close> and \<open>num_sides \<ge> 2\<close> such that the
  product \<open>dice_remaining * num_sides\<close> fits an \<^verbatim>\<open>int\<close>, \<open>num_sides\<close> is below
  \<open>INT_MAX\<close> and the number of tuples fits a \<^verbatim>\<open>long long\<close> (every valid config is such,
  by \<open>count_valid_range\<close>), the call returns a value. Every recursive call has one die
  less and never fewer than 0 dice, so a chain of nested calls is at most
  \<open>dice_remaining\<close> calls long, and every call on it returns a value.
\<close>

theorem count_sum_combinations_returns:
  assumes "0 \<le> dice_remaining" and "2 \<le> num_sides"
    and "dice_remaining * num_sides \<le> INT_MAX" and "num_sides < INT_MAX"
    and "int (tuples_with_sum (nat dice_remaining) num_sides target_sum) \<le> LLONG_MAX"
  shows "(\<exists>v. count_sum_combinations_recursive dice_remaining target_sum num_sides = Some v) \<and>
    (\<forall>calls. call_chain (dice_remaining, target_sum, num_sides) calls \<longrightarrow>
       length calls \<le> nat dice_remaining \<and>
       (\<forall>c \<in> set calls. case c of (d, t, s) \<Rightarrow>
          0 \<le> d \<and> d < dice_remaining \<and>
          (\<exists>v. count_sum_combinations_recursive d t s = Some v)))"
proof -
  have ret: "\<exists>v. count_sum_combinations_recursive d t num_sides = Some v"
    if "0 \<le> d" "d * num_sides \<le> INT_MAX" "int (tuples_with_sum (nat d) num_sides t) \<le> LLONG_MAX"
    for d t
    using count_char [of d num_sides t] that assms(2,4) by simp
  have chain: "length calls \<le> nat d \<and>
    (\<forall>c \<in> set calls. case c of (d', t', s') \<Rightarrow>
       0 \<le> d' \<and> d' < d \<and> (\<exists>v. count_sum_combinations_recursive d' t' s' = Some v))"
    if "call_chain (d, t, num_sides) calls" "0 \<le> d" "d * num_sides \<le> INT_MAX"
      "int (tuples_with_sum (nat d) num_sides t) \<le> LLONG_MAX"
    for d t calls
    using that
  proof (induction calls arbitrary: d t)
    case Nil
    show ?case by simp
  next
    case (Cons b bs)
    obtain d' t' s' where b: "b = (d', t', s')"
      by (cases b)
    from Cons.prems(1) b have call: "makes_call (d, t, num_sides) (d', t', s')"
      and rest: "call_chain (d', t', s') bs"
      by simp_all
    have s0: "0 \<le> num_sides" using assms(2) by simp
    from makes_call_returns [OF call Cons.prems(2) s0 Cons.prems(3,4)]
    have callee: "d' = d - 1" "s' = num_sides" "0 \<le> d'" "d' * num_sides \<le> INT_MAX"
      "int (tuples_with_sum (nat d') num_sides t') \<le> LLONG_MAX"
      by auto
    from Cons.IH [OF rest [unfolded callee(2)] callee(3,4,5)]
    have tail: "length bs \<le> nat d'"
      "\<forall>c \<in> set bs. case c of (d'', t'', s'') \<Rightarrow>
         0 \<le> d'' \<and> d'' < d' \<and> (\<exists>v. count_sum_combinations_recursive d'' t'' s'' = Some v)"
      by simp_all
    have "\<exists>v. count_sum_combinations_recursive d' t' s' = Some v"
      unfolding callee(2) using callee(3,4,5) by (rule ret)
    then show ?case
      using tail callee(1,3) b by auto
  qed
  show ?thesis
    using ret [OF assms(1,3,5)] chain [OF _ assms(1,3,5)] by blast
qed

theorem count_sum_combinations_returns_witness:
  "(0::int) \<le> 2 \<and> (2::int) \<le> 6 \<and> (2::int) * 6 \<le> INT_MAX \<and> (6::int) < INT_MAX \<and>
   int (tuples_with_sum (nat 2) 6 7) \<le> LLONG_MAX \<and>
   call_chain (2, 7, 6) [(1, 4, 6), (0, 3, 6)] \<and>
   (\<exists>v. count_sum_combinations_recursive 2 7 6 = Some v) \<and>
   length [(1::int, 4::int, 6::int), (0, 3, 6)] \<le> nat 2 \<and>
   (\<exists>v. count_sum_combinations_recursive 1 4 6 = Some v) \<and>
   (\<exists>v. count_sum_combinations_recursive 0 3 6 = Some v)"
proof -
  have r: "(0::int) \<le> 2" "(2::int) \<le> 6" "(2::int) * 6 \<le> INT_MAX" "(6::int) < INT_MAX"
    by (simp_all add: INT_MAX_def)
  have h: "int (tuples_with_sum (nat 2) 6 7) \<le> LLONG_MAX"
    by code_simp
  have c: "call_chain (2, 7, 6) [(1, 4, 6), (0, 3, 6)]"
    by code_simp
  note t = count_sum_combinations_returns [OF r h]
  from t have "\<exists>v. count_sum_combinations_recursive 2 7 6 = Some v"
    by blast
  moreover from t c have "length [(1::int, 4::int, 6::int), (0, 3, 6)] \<le> nat 2 \<and>
      (\<forall>c \<in> set [(1::int, 4::int, 6::int), (0, 3, 6)]. case c of (d, t, s) \<Rightarrow>
        0 \<le> d \<and> d < 2 \<and> (\<exists>v. count_sum_combinations_recursive d t s = Some v))"
    by blast
  ultimately show ?thesis
    using r h c by simp
qed

text \<open>
  Claim C9 as stated, for every \<open>num_sides \<ge> 2\<close>, fails: with one die of \<open>INT_MAX\<close>
  sides the test \<^verbatim>\<open>i <= num_sides\<close> holds of every \<^verbatim>\<open>int\<close>, so the loop can only be
  left through the overflow of \<^verbatim>\<open>i++\<close>, and the call returns no value.
\<close>

theorem count_sum_combinations_no_return_counterexample:
  "(0::int) \<le> 1 \<and> (2::int) \<le> 2147483647 \<and>
   count_sum_combinations_recursive 1 3 2147483647 = None"
proof -
  have "count_loop 1 3 2147483647 1 0 = None"
    by (rule count_loop_INT_MAX) (simp_all add: INT_MAX_def)
  then show ?thesis
    by (subst count_sum_combinations_recursive.simps)
      (simp add: int_chk_def INT_MIN_def INT_MAX_def)
qed


section \<open>Rounding to double precision\<close>

text \<open>\<open>ulp x\<close> is found at the first power of two that is large enough.\<close>

lemma scale_ulp_found:
  assumes "\<And>i. i < j \<Longrightarrow> 2 ^ 53 * (2 ^ i * u) \<le> \<bar>x\<bar>"
    and "\<bar>x\<bar> < 2 ^ 53 * (2 ^ j * u)" and "j \<le> n"
  shows "scale_ulp n u x = 2 ^ j * u"
  using assms
proof (induction n arbitrary: u j)
  case 0
  then show ?case by simp
next
  case (Suc n)
  show ?case
  proof (cases j)
    case 0
    then show ?thesis using Suc.prems(2) by simp
  next
    case (Suc j')
    have low: "2 ^ 53 * u \<le> \<bar>x\<bar>"
      using Suc.prems(1) [of 0] Suc by simp
    have "scale_ulp n (2 * u) x = 2 ^ j' * (2 * u)"
    proof (rule Suc.IH)
      fix i assume "i < j'"
      then show "2 ^ 53 * (2 ^ i * (2 * u)) \<le> \<bar>x\<bar>"
        using Suc.prems(1) [of "Suc i"] Suc by (simp add: mult.assoc)
    next
      show "\<bar>x\<bar> < 2 ^ 53 * (2 ^ j' * (2 * u))"
        using Suc.prems(2) Suc by (simp add: mult.assoc)
      show "j' \<le> n" using Suc.prems(3) Suc by simp
    qed
    then show ?thesis
      using low Suc by (simp add: mult.assoc)
  qed
qed

lemma ulp_eqI:
  assumes "j \<le> 2045"
    and "\<bar>x\<bar> < 2 ^ 53 * (2 ^ j / 2 ^ 1074)"
    and "j = 0 \<or> 2 ^ 53 * (2 ^ (j - 1) / 2 ^ 1074) \<le> \<bar>x\<bar>"
  shows "ulp x = 2 ^ j / 2 ^ 1074"
proof -
  have "scale_ulp 2045 (1 / 2 ^ 1074) x = 2 ^ j * (1 / 2 ^ 1074)"
  proof (rule scale_ulp_found)
    fix i assume i: "i < j"
    then have j: "2 ^ 53 * (2 ^ (j - 1) / 2 ^ 1074) \<le> \<bar>x\<bar>"
      using assms(3) by auto
    have "(2::real) ^ i \<le> 2 ^ (j - 1)"
      using i by (intro power_increasing) simp_all
    then have "2 ^ 53 * (2 ^ i * (1 / 2 ^ 1074)) \<le> 2 ^ 53 * (2 ^ (j - 1) / 2 ^ 1074 :: real)"
      by (simp add: divide_right_mono)
    then show "2 ^ 53 * (2 ^ i * (1 / 2 ^ 1074)) \<le> \<bar>x\<bar>"
      using j by linarith
  next
    show "\<bar>x\<bar> < 2 ^ 53 * (2 ^ j * (1 / 2 ^ 1074))"
      using assms(2) by simp
  qed (rule assms(1))
  then show ?thesis by (simp add: ulp_def)
qed



lemma ulp_0: "ulp 0 = 1 / 2 ^ 1074"
  using ulp_eqI [of 0 0] by simp

lemma round_half_even_0: "round_half_even 0 = 0"
  by (simp add: round_half_even_def)


lemma round_half_even_of_int: "round_half_even (of_int m) = m"
  by (simp add: round_half_even_def)

lemma round_double_0: "round_double 0 = Finite 0"
  by (simp add: round_double_def round_half_even_0)



lemma round_double_valI:
  assumes "ulp x = u" and "round_half_even (x / u) = m"
    and "u * of_int m < 2 ^ 1024" and "- (2 ^ 1024) < u * of_int m"
  shows "round_double x = Finite (u * of_int m)"
  using assms by (simp add: round_double_def Let_def)

lemma round_double_exactI:
  assumes "j \<le> 2045"
    and "\<bar>x\<bar> < 2 ^ 53 * (2 ^ j / 2 ^ 1074)"
    and "j = 0 \<or> 2 ^ 53 * (2 ^ (j - 1) / 2 ^ 1074) \<le> \<bar>x\<bar>"
    and "x / (2 ^ j / 2 ^ 1074) = of_int m"
  shows "round_double x = Finite x"
proof -
  let ?u = "2 ^ j / 2 ^ 1074 :: real"
  have u: "ulp x = ?u"
    using assms(1-3) by (rule ulp_eqI)
  have m: "round_half_even (x / ?u) = m"
    by (simp only: assms(4) round_half_even_of_int)
  have x: "?u * of_int m = x"
    using assms(4) by (simp add: field_simps)
  have "(2::real) ^ j \<le> 2 ^ 2045"
    using assms(1) by (intro power_increasing) simp_all
  then have "2 ^ 53 * ?u \<le> (2 ^ 1024 :: real)"
    by (simp add: field_simps)
  then have "\<bar>x\<bar> < 2 ^ 1024"
    using assms(2) by linarith
  then have "?u * of_int m < 2 ^ 1024" "- (2 ^ 1024) < ?u * of_int m"
    unfolding x by linarith+
  then have "round_double x = Finite (?u * of_int m)"
    by (rule round_double_valI [OF u m])
  then show ?thesis
    by (simp only: x)
qed

text \<open>Values of \<open>round_double\<close> that the examples below use.\<close>

lemma round_double_1: "round_double 1 = Finite 1"
  by (rule round_double_exactI [where j = 1022 and m = "2 ^ 52"]) simp_all

lemma round_double_2: "round_double 2 = Finite 2"
  by (rule round_double_exactI [where j = 1023 and m = "2 ^ 52"]) simp_all

lemma round_double_3: "round_double 3 = Finite 3"
  by (rule round_double_exactI [where j = 1023 and m = "3 * 2 ^ 51"]) simp_all

lemma round_double_4: "round_double 4 = Finite 4"
  by (rule round_double_exactI [where j = 1024 and m = "2 ^ 52"]) simp_all

lemma round_double_minus_2: "round_double (- 2) = Finite (- 2)"
  by (rule round_double_exactI [where j = 1023 and m = "- (2 ^ 52)"]) simp_all

lemma round_double_third: "round_double (4 / 3) = Finite (6004799503160661 / 4503599627370496)"
proof -
  have u: "ulp (4 / 3) = 2 ^ 1022 / 2 ^ 1074"
    by (rule ulp_eqI) simp_all
  have "round_double (4 / 3) = Finite (2 ^ 1022 / 2 ^ 1074 * of_int 6004799503160661)"
    by (rule round_double_valI [OF u]) (simp_all add: round_half_even_def Let_def)
  then show ?thesis by simp
qed

lemma round_double_third_exact:
  "round_double (6004799503160661 / 4503599627370496) =
     Finite (6004799503160661 / 4503599627370496)"
  by (rule round_double_exactI [where j = 1022 and m = 6004799503160661]) simp_all





section \<open>Correctness of the goodness-of-fit evaluator\<close>

lemma dgt_zero_nonzero: "dgt_zero e \<Longrightarrow> e \<noteq> Finite 0"
  by (cases e) auto

lemma chi_squared_body_char:
  assumes "0 \<le> k" "k < int (length obs)" "k < int (length ex)"
  shows "chi_squared_body obs ex k acc =
    Some (if dgt_zero (ex ! nat k)
          then dadd acc (chi_squared_term (obs ! nat k) (ex ! nat k)) else acc)"
  using assms
  by (simp add: chi_squared_body_def array_read_def Let_def ddiv_def chi_squared_term_def
      dgt_zero_nonzero)

lemma chi_squared_loop_char:
  assumes "\<And>j. k \<le> j \<Longrightarrow> j \<le> hi \<Longrightarrow> 0 \<le> j \<and> j < int (length obs) \<and> j < int (length ex)"
    and "hi < INT_MAX"
  shows "chi_squared_loop obs ex k hi acc =
    Some (foldl dadd acc
      (map (\<lambda>s. chi_squared_term (obs ! nat s) (ex ! nat s))
        (filter (\<lambda>s. dgt_zero (ex ! nat s)) [k..hi])))"
  using assms(1)
proof (induction "nat (hi + 1 - k)" arbitrary: k acc)
  case 0
  then have "\<not> k \<le> hi" by simp
  then show ?case
    by (subst chi_squared_loop.simps) simp
next
  case (Suc n)
  then have k_le: "k \<le> hi" by linarith
  have idx: "0 \<le> k \<and> k < int (length obs) \<and> k < int (length ex)"
    using Suc.prems(1) [of k] k_le by simp
  have nxt: "int_chk (k + 1) = Some (k + 1)"
    using idx k_le assms(2) by (simp add: int_chk_def INT_MIN_def)
  have split: "[k..hi] = k # [k + 1..hi]"
    using k_le by (simp add: upto_rec1)
  have "chi_squared_loop obs ex (k + 1) hi acc' =
    Some (foldl dadd acc'
      (map (\<lambda>s. chi_squared_term (obs ! nat s) (ex ! nat s))
        (filter (\<lambda>s. dgt_zero (ex ! nat s)) [k + 1..hi])))" for acc'
  proof (rule Suc.hyps(1))
    show "n = nat (hi + 1 - (k + 1))" using Suc.hyps(2) by linarith
  next
    fix j assume "k + 1 \<le> j" "j \<le> hi"
    then show "0 \<le> j \<and> j < int (length obs) \<and> j < int (length ex)"
      using Suc.prems(1) [of j] by simp
  qed
  then show ?case
    using k_le idx nxt
    by (subst chi_squared_loop.simps) (simp add: chi_squared_body_char split)
qed

lemma perform_chi_squared_test_char:
  assumes "\<forall>s \<in> {lo..hi}. 0 \<le> s \<and> s < int (length obs) \<and> s < int (length ex)"
    and "hi < INT_MAX"
  shows "perform_chi_squared_test obs ex lo hi =
    Some (foldl dadd (Finite 0)
      (map (\<lambda>s. chi_squared_term (obs ! nat s) (ex ! nat s))
        (filter (\<lambda>s. dgt_zero (ex ! nat s)) [lo..hi])))"
  unfolding perform_chi_squared_test_def
  using assms by (intro chi_squared_loop_char) auto

lemma chi_squared_loop_INT_MAX:
  assumes "k \<le> INT_MAX"
  shows "chi_squared_loop obs ex k INT_MAX acc = None"
  using assms
proof (induction "nat (INT_MAX - k)" arbitrary: k acc)
  case 0
  then have "k = INT_MAX" by simp
  then show ?case
    by (subst chi_squared_loop.simps) (simp add: int_chk_def INT_MAX_def split: option.splits)
next
  case (Suc n)
  then have "chi_squared_loop obs ex (k + 1) INT_MAX acc' = None" for acc'
    by (intro Suc.hyps(1)) linarith+
  then show ?case
    using Suc.prems
    by (subst chi_squared_loop.simps) (simp add: int_chk_def split: option.splits)
qed










text \<open>
  Claim C3, as amended. For arrays of observed and expected counts that have the indices
  from \<open>min_sum\<close> to \<open>max_sum\<close>, with \<open>max_sum < INT_MAX\<close>, the test returns the sum of
  the terms \<open>(observed - expected)\<^sup>2 / expected\<close> over exactly the sums of that range with
  \<open>expected > 0\<close>, where the sum is taken in increasing order of the sums and the conversion,
  the difference, the square, the quotient and each addition are computed in
  \<^verbatim>\<open>double\<close>, rounded to nearest; a sum whose expected count is not above 0
  contributes nothing.
\<close>

theorem perform_chi_squared_test_sum:
  assumes "\<forall>s \<in> {min_sum..max_sum}.
      0 \<le> s \<and> s < int (length observed_counts) \<and> s < int (length expected_counts)"
    and "max_sum < INT_MAX"
  shows "perform_chi_squared_test observed_counts expected_counts min_sum max_sum =
    Some (foldl dadd (Finite 0)
      (map (\<lambda>s. ddiv_nonzero
             (dmul (dsub (double_of_ll (observed_counts ! nat s)) (expected_counts ! nat s))
                   (dsub (double_of_ll (observed_counts ! nat s)) (expected_counts ! nat s)))
             (expected_counts ! nat s))
        (filter (\<lambda>s. dgt_zero (expected_counts ! nat s)) [min_sum..max_sum])))"
  using perform_chi_squared_test_char [OF assms] by (simp add: chi_squared_term_def Let_def)

lemma upto_1_2: "[1..2] = [1, 2::int]"
  by (simp add: upto_rec1)

theorem perform_chi_squared_test_sum_witness:
  "(0::int) \<le> 1 \<and> (2::int) < int (length [0, 3, 5 :: int]) \<and>
   (2::int) < int (length [Finite 0, Finite 1, Finite 0]) \<and>
   (2::int) < INT_MAX \<and>
   perform_chi_squared_test [0, 3, 5] [Finite 0, Finite 1, Finite 0] 1 2 = Some (Finite 4)"
proof -
  have h1: "\<forall>s \<in> {1..2::int}. 0 \<le> s \<and> s < int (length [0, 3, 5 :: int]) \<and>
      s < int (length [Finite 0, Finite 1, Finite 0])"
    by simp
  have h2: "(2::int) < INT_MAX"
    by (simp add: INT_MAX_def)
  have "perform_chi_squared_test [0, 3, 5] [Finite 0, Finite 1, Finite 0] 1 2 = Some (Finite 4)"
    unfolding perform_chi_squared_test_sum [OF h1 h2]
    by (simp add: upto_1_2 double_of_ll_def dsub_def round_double_2 round_double_3
        round_double_4)
  with h2 show ?thesis
    by simp
qed

text \<open>
  Claim C3 as stated, exactly the sum of the quotients, fails: for the observed count 1
  and the expected count 3 the quotient 4 / 3 is no \<^verbatim>\<open>double\<close>, and the test returns
  the \<^verbatim>\<open>double\<close> next to it.
\<close>

theorem perform_chi_squared_test_rounds_counterexample:
  "perform_chi_squared_test [0, 1] [Finite 0, Finite 3] 1 1 =
     Some (Finite (6004799503160661 / 4503599627370496)) \<and>
   dgt_zero (Finite 3) \<and>
   (6004799503160661 / 4503599627370496 :: real) \<noteq> (real_of_int 1 - 3)\<^sup>2 / 3"
proof -
  have idx: "\<forall>s \<in> {1..1::int}. 0 \<le> s \<and> s < int (length [0, 1 :: int]) \<and>
      s < int (length [Finite 0, Finite 3])"
    by simp
  have "perform_chi_squared_test [0, 1] [Finite 0, Finite 3] 1 1 =
     Some (Finite (6004799503160661 / 4503599627370496))"
    unfolding perform_chi_squared_test_char [OF idx, unfolded INT_MAX_def, simplified]
    by (simp add: chi_squared_term_def double_of_ll_def dsub_def
        round_double_1 round_double_minus_2 round_double_4 round_double_third
        round_double_third_exact)
  then show ?thesis by simp
qed

text \<open>
  With \<open>max_sum = INT_MAX\<close> the loop of line 125 can only be left through the overflow
  of \<^verbatim>\<open>sum++\<close>: the bound on \<open>max_sum\<close> in the amended claims C3 and C7 is needed.
\<close>

lemma perform_chi_squared_test_INT_MAX:
  assumes "min_sum \<le> INT_MAX"
  shows "perform_chi_squared_test observed_counts expected_counts min_sum INT_MAX = None"
  unfolding perform_chi_squared_test_def using assms by (rule chi_squared_loop_INT_MAX)




text \<open>
  With an expected count of plus infinity the term is infinity over infinity, and the
  statistic is NaN, which is not at least 0: the condition of the amended claim C7 is
  needed.
\<close>

lemma perform_chi_squared_test_NaN:
  "perform_chi_squared_test [0, 0] [Finite 0, PlusInf] 1 1 = Some NaN"
proof -
  have idx: "\<forall>s \<in> {1..1::int}. 0 \<le> s \<and> s < int (length [0, 0 :: int]) \<and>
      s < int (length [Finite 0, PlusInf])"
    by simp
  show ?thesis
    unfolding perform_chi_squared_test_char [OF idx, unfolded INT_MAX_def, simplified]
    by (simp add: chi_squared_term_def double_of_ll_def dsub_def round_double_0)
qed


section \<open>Correctness of the theoretical distribution\<close>

lemma theoretical_loop_char:
  assumes "1 \<le> d" "d \<le> 10" "2 \<le> s" "s \<le> 100"
    and "0 \<le> k" "hi < int (length e)" "hi < INT_MAX"
  shows "\<exists>e'. theoretical_loop d s n tot k hi e = Some e' \<and> length e' = length e \<and>
    (\<forall>j < length e. e' ! j =
      (if k \<le> int j \<and> int j \<le> hi
       then real_of_int (int (tuples_with_sum (nat d) s (int j))) / tot * real_of_int n
       else e ! j))"
  using assms(5,6)
proof (induction "nat (hi + 1 - k)" arbitrary: k e)
  case 0
  then have "\<not> k \<le> hi" by simp
  then show ?case
    by (subst theoretical_loop.simps) auto
next
  case (Suc m)
  then have k_le: "k \<le> hi" by linarith
  let ?v = "real_of_int (int (tuples_with_sum (nat d) s k)) / tot * real_of_int n"
  have cnt: "count_sum_combinations_recursive d k s = Some (int (tuples_with_sum (nat d) s k))"
    using assms(1-4) by (rule count_valid_range)
  have wr: "array_write e k ?v = Some (e[nat k := ?v])"
    using Suc.prems k_le by (simp add: array_write_def)
  have nxt: "int_chk (k + 1) = Some (k + 1)"
    using Suc.prems(1) k_le assms(7) by (simp add: int_chk_def INT_MIN_def)
  have step: "theoretical_loop d s n tot k hi e =
      theoretical_loop d s n tot (k + 1) hi (e[nat k := ?v])"
    using k_le cnt wr nxt by (subst theoretical_loop.simps) (simp add: Let_def)
  have "\<exists>e'. theoretical_loop d s n tot (k + 1) hi (e[nat k := ?v]) = Some e' \<and>
      length e' = length (e[nat k := ?v]) \<and>
      (\<forall>j < length (e[nat k := ?v]). e' ! j =
        (if k + 1 \<le> int j \<and> int j \<le> hi
         then real_of_int (int (tuples_with_sum (nat d) s (int j))) / tot * real_of_int n
         else (e[nat k := ?v]) ! j))"
  proof (rule Suc.hyps(1))
    show "m = nat (hi + 1 - (k + 1))" using Suc.hyps(2) by linarith
    show "0 \<le> k + 1" using Suc.prems(1) by simp
    show "hi < int (length (e[nat k := ?v]))" using Suc.prems(2) by simp
  qed
  then obtain e' where e': "theoretical_loop d s n tot (k + 1) hi (e[nat k := ?v]) = Some e'"
      "length e' = length e"
      "\<And>j. j < length e \<Longrightarrow> e' ! j =
        (if k + 1 \<le> int j \<and> int j \<le> hi
         then real_of_int (int (tuples_with_sum (nat d) s (int j))) / tot * real_of_int n
         else (e[nat k := ?v]) ! j)"
    by auto
  have "e' ! j =
      (if k \<le> int j \<and> int j \<le> hi
       then real_of_int (int (tuples_with_sum (nat d) s (int j))) / tot * real_of_int n
       else e ! j)" if "j < length e" for j
  proof (cases "j = nat k")
    case True
    then have "int j = k" using Suc.prems(1) by simp
    then show ?thesis
      using e'(3) [OF that] True that k_le by simp
  next
    case False
    then have "int j \<noteq> k" by auto
    then show ?thesis
      using e'(3) [OF that] False by auto
  qed
  then show ?case
    using step e'(1,2) by simp
qed

lemma calculate_theoretical_counts_char:
  assumes "valid_config d s n" and "d * s < int (length e)"
  shows "\<exists>e'. calculate_theoretical_counts d s n e = Some e' \<and> length e' = length e \<and>
    (\<forall>j < length e. e' ! j =
      (if d \<le> int j \<and> int j \<le> d * s
       then real_of_int (int (tuples_with_sum (nat d) s (int j))) / real_of_int s ^ nat d *
         real_of_int n
       else e ! j))"
proof -
  from assms(1) have v: "1 \<le> d" "d \<le> 10" "2 \<le> s" "s \<le> 100"
    by (auto simp: valid_config_def)
  have "d * s \<le> 10 * 100"
    using v by (intro mult_mono) simp_all
  moreover have "0 \<le> d * s"
    using v by simp
  ultimately have "d * s \<le> 1000 \<and> 0 \<le> d * s"
    by simp
  then have prod: "int_chk (d * s) = Some (d * s)" and lt: "d * s < INT_MAX"
    unfolding int_chk_def INT_MIN_def INT_MAX_def by auto
  have pw: "power_int (real_of_int s) d = real_of_int s ^ nat d"
    using v by (simp add: power_int_def)
  show ?thesis
    unfolding calculate_theoretical_counts_def Let_def prod pw option.case
    using v assms(2) lt by (intro theoretical_loop_char) simp_all
qed

text \<open>
  Claim C4. For every valid config (1 to 10 dice, 2 to 100 sides, at least one trial) and
  an array that has the index \<open>num_dice * num_sides\<close>, the expected counts that
  \<^verbatim>\<open>calculate_theoretical_counts\<close> writes for the sums from \<open>num_dice\<close> to
  \<open>num_dice * num_sides\<close> add up to \<open>num_trials\<close> exactly, in real arithmetic.
\<close>

theorem expected_counts_sum_to_trials:
  assumes "valid_config num_dice num_sides num_trials"
    and "num_dice * num_sides < int (length expected_counts)"
  shows "\<exists>e. calculate_theoretical_counts num_dice num_sides num_trials expected_counts = Some e \<and>
    (\<Sum>s = num_dice..num_dice * num_sides. e ! nat s) = real_of_int num_trials"
proof -
  from assms(1) have v: "1 \<le> num_dice" "2 \<le> num_sides"
    by (auto simp: valid_config_def)
  let ?n = "nat num_dice"
  let ?w = "\<lambda>s. tuples_with_sum ?n num_sides s"
  obtain e where e: "calculate_theoretical_counts num_dice num_sides num_trials expected_counts = Some e"
    and ent: "\<And>j. j < length expected_counts \<Longrightarrow> e ! j =
      (if num_dice \<le> int j \<and> int j \<le> num_dice * num_sides
       then real_of_int (int (?w (int j))) / real_of_int num_sides ^ ?n * real_of_int num_trials
       else expected_counts ! j)"
    using calculate_theoretical_counts_char [OF assms] by blast
  have "(\<Sum>s = num_dice..num_dice * num_sides. e ! nat s) =
      (\<Sum>s = num_dice..num_dice * num_sides.
        real_of_int (int (?w s)) / real_of_int num_sides ^ ?n * real_of_int num_trials)"
  proof (rule sum.cong)
    fix s assume "s \<in> {num_dice..num_dice * num_sides}"
    then have "nat s < length expected_counts" "int (nat s) = s" "num_dice \<le> s" "s \<le> num_dice * num_sides"
      using assms(2) v by auto
    then show "e ! nat s =
        real_of_int (int (?w s)) / real_of_int num_sides ^ ?n * real_of_int num_trials"
      using ent [of "nat s"] by simp
  qed simp
  also have "\<dots> = real_of_int (int (\<Sum>s = num_dice..num_dice * num_sides. ?w s)) /
      real_of_int num_sides ^ ?n * real_of_int num_trials"
    by (simp add: sum_divide_distrib sum_distrib_right)
  also have "(\<Sum>s = num_dice..num_dice * num_sides. ?w s) = nat num_sides ^ ?n"
    using tuples_with_sum_total [of ?n num_sides] v by simp
  also have "real_of_int (int (nat num_sides ^ ?n)) = real_of_int num_sides ^ ?n"
    using v by simp
  finally show ?thesis
    using e v by simp
qed

theorem expected_counts_sum_to_trials_witness:
  "valid_config 2 6 720 \<and> (2::int) * 6 < int (length (calloc_array (2 * 6 + 1) :: real list)) \<and>
   (\<exists>e. calculate_theoretical_counts 2 6 720 (calloc_array (2 * 6 + 1)) = Some e \<and>
     (\<Sum>s = 2..2 * 6. e ! nat s) = real_of_int 720)"
proof -
  have h1: "valid_config 2 6 720"
    by (simp add: valid_config_def LLONG_MAX_def)
  have h2: "(2::int) * 6 < int (length (calloc_array (2 * 6 + 1) :: real list))"
    by (simp add: calloc_array_def)
  show ?thesis
    using expected_counts_sum_to_trials [OF h1 h2] h1 h2 by blast
qed

text \<open>Two six-sided dice and 720 trials: the expected counts, from the sum 2 to the sum 12.\<close>

lemma calculate_theoretical_counts_2d6:
  "calculate_theoretical_counts 2 6 720 (calloc_array (2 * 6 + 1)) =
     Some [0, 0, 20, 40, 60, 80, 100, 120, 100, 80, 60, 40, 20]"
  by code_simp


section \<open>Correctness of the simulation engine\<close>

lemma c_rem_nonneg:
  assumes "0 \<le> a" "0 < b"
  shows "c_rem a b = Some (a mod b)"
proof (cases "a = 0")
  case True
  then show ?thesis using assms by (simp add: c_rem_def)
next
  case False
  then have "0 < a" using assms by simp
  then show ?thesis using assms by (simp add: c_rem_def INT_MIN_def)
qed

lemma roll_loop_char:
  assumes rnd: "\<And>k. 0 \<le> rnd k"
    and s: "2 \<le> s" "s \<le> 100"
    and d: "d \<le> 10"
    and j: "0 \<le> j" "j \<le> d"
    and cs: "0 \<le> cs" "cs \<le> j * 100"
  shows "roll_loop d s rnd pos j cs =
    Some (pos + nat (d - j), cs + (\<Sum>i < nat (d - j). rnd (pos + i) mod s + 1))"
  using j cs
proof (induction "nat (d - j)" arbitrary: j cs pos)
  case 0
  then have "\<not> j < d" by simp
  then show ?case
    using "0.hyps" by (subst roll_loop.simps) simp
next
  case (Suc m)
  then have j_lt: "j < d" by linarith
  let ?face = "rnd pos mod s + 1"
  have "0 < s" using s by simp
  then have "0 \<le> rnd pos mod s" "rnd pos mod s < s"
    by (simp_all only: pos_mod_sign pos_mod_bound)
  then have face: "1 \<le> ?face" "?face \<le> s"
    by simp_all
  have r: "c_rem (rnd pos) s = Some (rnd pos mod s)"
    using rnd s by (intro c_rem_nonneg) simp_all
  have c1: "int_chk ?face = Some ?face"
    using face s by (simp add: int_chk_def INT_MIN_def INT_MAX_def)
  have c2: "int_chk (cs + ?face) = Some (cs + ?face)"
    using face s Suc.prems d by (simp add: int_chk_def INT_MIN_def INT_MAX_def)
  have c3: "int_chk (j + 1) = Some (j + 1)"
    using j_lt d Suc.prems by (simp add: int_chk_def INT_MIN_def INT_MAX_def)
  have step: "roll_loop d s rnd pos j cs = roll_loop d s rnd (Suc pos) (j + 1) (cs + ?face)"
    using j_lt r c1 c2 c3 by (subst roll_loop.simps) simp
  have m: "m = nat (d - (j + 1))" and dj: "nat (d - j) = Suc m"
    using Suc.hyps(2) by linarith+
  have "roll_loop d s rnd (Suc pos) (j + 1) (cs + ?face) =
    Some (Suc pos + nat (d - (j + 1)),
      cs + ?face + (\<Sum>i < nat (d - (j + 1)). rnd (Suc pos + i) mod s + 1))"
    using m j_lt Suc.prems face s by (intro Suc.hyps(1)) simp_all
  then show ?case
    unfolding step dj m [symmetric]
    by (simp add: sum.lessThan_Suc_shift del: sum.lessThan_Suc)
qed

lemma trial_sum_bounds:
  assumes "1 \<le> s"
  shows "int n \<le> trial_sum rnd pos n s i \<and> trial_sum rnd pos n s i \<le> int n * s"
proof -
  have "0 < s" using assms by simp
  then have "0 \<le> rnd k mod s" "rnd k mod s < s" for k
    by (simp_all only: pos_mod_sign pos_mod_bound)
  then have each: "1 \<le> rnd k mod s + 1" "rnd k mod s + 1 \<le> s" for k
    by (simp_all add: add1_zle_eq)
  have "(\<Sum>j < n. (1::int)) \<le> trial_sum rnd pos n s i"
    unfolding trial_sum_def by (rule sum_mono) (rule each)
  moreover have "trial_sum rnd pos n s i \<le> (\<Sum>j < n. s)"
    unfolding trial_sum_def by (rule sum_mono) (rule each)
  ultimately show ?thesis by simp
qed

lemma trial_sum_shift:
  "trial_sum rnd (pos + n) n s m = trial_sum rnd pos n s (Suc m)"
  by (simp add: trial_sum_def algebra_simps)

lemma roll_loop_trial:
  assumes "\<And>k. 0 \<le> rnd k" "1 \<le> d" "d \<le> 10" "2 \<le> s" "s \<le> 100"
  shows "roll_loop d s rnd pos 0 0 = Some (pos + nat d, trial_sum rnd pos (nat d) s 0)"
  using roll_loop_char [of rnd s d 0 0 pos] assms by (simp add: trial_sum_def)

lemma card_fibre_Suc:
  "card {m. m < Suc N \<and> f m = k} =
     (if f 0 = k then 1 else 0) + card {m. m < N \<and> f (Suc m) = k}"
proof -
  have "{m. m < Suc N \<and> f m = k} =
      (if f 0 = k then {0} else {}) \<union> Suc ` {m. m < N \<and> f (Suc m) = k}"
  proof (intro set_eqI iffI)
    fix m assume "m \<in> {m. m < Suc N \<and> f m = k}"
    then show "m \<in> (if f 0 = k then {0} else {}) \<union> Suc ` {m. m < N \<and> f (Suc m) = k}"
      by (cases m) auto
  next
    fix m assume "m \<in> (if f 0 = k then {0} else {}) \<union> Suc ` {m. m < N \<and> f (Suc m) = k}"
    then show "m \<in> {m. m < Suc N \<and> f m = k}"
      by (auto split: if_splits)
  qed
  moreover have "card ((if f 0 = k then {0} else {}) \<union> Suc ` {m. m < N \<and> f (Suc m) = k}) =
      card (if f 0 = k then {0::nat} else {}) + card (Suc ` {m. m < N \<and> f (Suc m) = k})"
    by (rule card_Un_disjoint) auto
  moreover have "card (Suc ` {m. m < N \<and> f (Suc m) = k}) = card {m. m < N \<and> f (Suc m) = k}"
    by (rule card_image) simp
  ultimately show ?thesis by simp
qed

lemma trial_loop_char:
  assumes rnd: "\<And>k. 0 \<le> rnd k"
    and v: "1 \<le> d" "d \<le> 10" "2 \<le> s" "s \<le> 100"
    and n: "n \<le> LLONG_MAX"
    and i: "0 \<le> i" "i \<le> n"
    and len: "int (length obs) = d * s + 1"
    and obs: "\<And>k. k < length obs \<Longrightarrow> 0 \<le> obs ! k \<and> obs ! k + (n - i) \<le> LLONG_MAX"
  shows "\<exists>obs'. trial_loop d s n rnd i pos obs = Some (pos + nat (n - i) * nat d, obs') \<and>
    length obs' = length obs \<and>
    (\<forall>k < length obs. obs' ! k =
      obs ! k + int (card {m. m < nat (n - i) \<and> trial_sum rnd pos (nat d) s m = int k}))"
  using i len obs
proof (induction "nat (n - i)" arbitrary: i pos obs)
  case 0
  then have "\<not> i < n" by simp
  then show ?case
    using "0.hyps" by (subst trial_loop.simps) simp
next
  case (Suc N)
  then have i_lt: "i < n" by linarith
  have N: "N = nat (n - (i + 1))" and ni: "nat (n - i) = Suc N"
    using Suc.hyps(2) by linarith+
  let ?cs = "trial_sum rnd pos (nat d) s 0"
  have roll: "roll_loop d s rnd pos 0 0 = Some (pos + nat d, ?cs)"
    using rnd v by (rule roll_loop_trial)
  have "int (nat d) \<le> ?cs \<and> ?cs \<le> int (nat d) * s"
    using v by (intro trial_sum_bounds) simp
  then have cs: "d \<le> ?cs" "?cs \<le> d * s"
    using v by simp_all
  then have idx: "0 \<le> ?cs" "?cs < int (length obs)" "nat ?cs < length obs"
    using v Suc.prems(3) by simp_all
  let ?c = "obs ! nat ?cs"
  have rd: "array_read obs ?cs = Some ?c"
    using idx by (simp add: array_read_def)
  have inc: "ll_chk (?c + 1) = Some (?c + 1)"
    using Suc.prems(4) [OF idx(3)] i_lt by (simp add: ll_chk_def LLONG_MIN_def)
  let ?obs1 = "obs[nat ?cs := ?c + 1]"
  have wr: "array_write obs ?cs (?c + 1) = Some ?obs1"
    using idx by (simp add: array_write_def)
  have nxt: "ll_chk (i + 1) = Some (i + 1)"
    using i_lt n Suc.prems(1) by (simp add: ll_chk_def LLONG_MIN_def)
  have step: "trial_loop d s n rnd i pos obs = trial_loop d s n rnd (i + 1) (pos + nat d) ?obs1"
    using i_lt roll rd inc wr nxt by (subst trial_loop.simps) simp
  have "\<exists>obs'. trial_loop d s n rnd (i + 1) (pos + nat d) ?obs1 =
      Some (pos + nat d + nat (n - (i + 1)) * nat d, obs') \<and>
    length obs' = length ?obs1 \<and>
    (\<forall>k < length ?obs1. obs' ! k =
      ?obs1 ! k +
        int (card {m. m < nat (n - (i + 1)) \<and> trial_sum rnd (pos + nat d) (nat d) s m = int k}))"
  proof (rule Suc.hyps(1))
    show "N = nat (n - (i + 1))" by (rule N)
    show "0 \<le> i + 1" using Suc.prems(1) by simp
    show "i + 1 \<le> n" using i_lt by simp
    show "int (length ?obs1) = d * s + 1" using Suc.prems(3) by simp
    show "0 \<le> ?obs1 ! k \<and> ?obs1 ! k + (n - (i + 1)) \<le> LLONG_MAX" if "k < length ?obs1" for k
      using Suc.prems(4) [of k] that by (cases "k = nat ?cs") simp_all
  qed
  then obtain obs' where obs':
    "trial_loop d s n rnd (i + 1) (pos + nat d) ?obs1 = Some (pos + nat d + N * nat d, obs')"
    "length obs' = length obs"
    "\<And>k. k < length obs \<Longrightarrow> obs' ! k =
      ?obs1 ! k + int (card {m. m < N \<and> trial_sum rnd pos (nat d) s (Suc m) = int k})"
    unfolding N [symmetric] trial_sum_shift by auto
  have "obs' ! k =
      obs ! k + int (card {m. m < Suc N \<and> trial_sum rnd pos (nat d) s m = int k})"
    if "k < length obs" for k
  proof (cases "k = nat ?cs")
    case True
    then have "?cs = int k" using idx(1) by simp
    then show ?thesis
      using obs'(3) [OF that] that True
      by (simp add: card_fibre_Suc [of N "trial_sum rnd pos (nat d) s"])
  next
    case False
    then have "?cs \<noteq> int k" by auto
    then show ?thesis
      using obs'(3) [OF that] that False
      by (simp add: card_fibre_Suc [of N "trial_sum rnd pos (nat d) s"])
  qed
  then show ?case
    unfolding step ni using obs'(1,2) by simp
qed

lemma sum_card_fibres:
  assumes "finite K" and "\<And>m. m < N \<Longrightarrow> f m \<in> K"
  shows "(\<Sum>k \<in> K. card {m. m < N \<and> f m = k}) = N"
proof -
  have "(\<Sum>k \<in> K. \<Sum>m \<in> {m \<in> {..<N}. f m = k}. 1) = (\<Sum>m \<in> {..<N}. (1::nat))"
    using assms by (intro sum.group) auto
  then show ?thesis by simp
qed

lemma run_simulation_char:
  assumes "valid_config d s n" and "\<forall>k. 0 \<le> rnd k"
  shows "\<exists>obs. run_simulation d s n rnd pos (calloc_array (d * s + 1)) =
      Some (pos + nat n * nat d, obs) \<and>
    length obs = nat (d * s + 1) \<and>
    (\<forall>k < length obs. obs ! k =
      int (card {m. m < nat n \<and> trial_sum rnd pos (nat d) s m = int k}))"
proof -
  from assms(1) have v: "1 \<le> d" "d \<le> 10" "2 \<le> s" "s \<le> 100" "1 \<le> n" "n \<le> LLONG_MAX"
    by (auto simp: valid_config_def)
  have ds: "0 \<le> d * s"
    using v by simp
  let ?obs0 = "calloc_array (d * s + 1) :: int list"
  have "\<exists>obs. trial_loop d s n rnd 0 pos ?obs0 = Some (pos + nat (n - 0) * nat d, obs) \<and>
    length obs = length ?obs0 \<and>
    (\<forall>k < length ?obs0. obs ! k =
      ?obs0 ! k + int (card {m. m < nat (n - 0) \<and> trial_sum rnd pos (nat d) s m = int k}))"
  proof (rule trial_loop_char)
    show "0 \<le> rnd k" for k using assms(2) by simp
    show "int (length ?obs0) = d * s + 1" using ds by (simp add: calloc_array_def)
    show "0 \<le> ?obs0 ! k \<and> ?obs0 ! k + (n - 0) \<le> LLONG_MAX" if "k < length ?obs0" for k
      using that v by (simp add: calloc_array_def)
  qed (insert v, simp_all)
  then show ?thesis
    by (auto simp add: run_simulation_def calloc_array_def)
qed

text \<open>
  Claim C5. For every valid config and every sequence of draws of \<^verbatim>\<open>rand()\<close> (which
  returns values from 0 to \<^verbatim>\<open>RAND_MAX\<close>), \<^verbatim>\<open>run_simulation\<close>, started on the all-zero
  array of \<^verbatim>\<open>main\<close>, performs exactly \<open>num_trials\<close> trials of \<open>num_dice\<close> draws each;
  the count it leaves at an index is the number of trials with that sum, so that every
  trial is counted once, at one index; and the observed counts of the sums from
  \<open>num_dice\<close> to \<open>num_dice * num_sides\<close> add up to \<open>num_trials\<close>.
\<close>

theorem run_simulation_counts_every_trial:
  assumes "valid_config num_dice num_sides num_trials" and "\<forall>k. 0 \<le> rnd k"
  shows "\<exists>obs. run_simulation num_dice num_sides num_trials rnd pos
        (calloc_array (num_dice * num_sides + 1)) =
      Some (pos + nat num_trials * nat num_dice, obs) \<and>
    length obs = nat (num_dice * num_sides + 1) \<and>
    (\<forall>k < length obs. obs ! k =
      int (card {m. m < nat num_trials \<and> trial_sum rnd pos (nat num_dice) num_sides m = int k})) \<and>
    (\<Sum>s = num_dice..num_dice * num_sides. obs ! nat s) = num_trials"
proof -
  from assms(1) have v: "1 \<le> num_dice" "2 \<le> num_sides" "1 \<le> num_trials"
    by (auto simp: valid_config_def)
  let ?ts = "trial_sum rnd pos (nat num_dice) num_sides"
  obtain obs where run: "run_simulation num_dice num_sides num_trials rnd pos
        (calloc_array (num_dice * num_sides + 1)) =
      Some (pos + nat num_trials * nat num_dice, obs)"
    and len: "length obs = nat (num_dice * num_sides + 1)"
    and hist: "\<And>k. k < length obs \<Longrightarrow> obs ! k = int (card {m. m < nat num_trials \<and> ?ts m = int k})"
    using run_simulation_char [OF assms] by blast
  have range: "?ts m \<in> {num_dice..num_dice * num_sides}" for m
    using trial_sum_bounds [of num_sides "nat num_dice" rnd pos m] v by simp
  have "(\<Sum>s = num_dice..num_dice * num_sides. obs ! nat s) =
      (\<Sum>s = num_dice..num_dice * num_sides. int (card {m. m < nat num_trials \<and> ?ts m = s}))"
  proof (rule sum.cong)
    fix s assume "s \<in> {num_dice..num_dice * num_sides}"
    then have "nat s < length obs" "int (nat s) = s"
      using len v by auto
    then show "obs ! nat s = int (card {m. m < nat num_trials \<and> ?ts m = s})"
      using hist [of "nat s"] by simp
  qed simp
  also have "\<dots> = int (\<Sum>s = num_dice..num_dice * num_sides. card {m. m < nat num_trials \<and> ?ts m = s})"
    by simp
  also have "(\<Sum>s = num_dice..num_dice * num_sides. card {m. m < nat num_trials \<and> ?ts m = s}) =
      nat num_trials"
    by (rule sum_card_fibres) (simp_all add: range del: atLeastAtMost_iff)
  finally have "(\<Sum>s = num_dice..num_dice * num_sides. obs ! nat s) = num_trials"
    using v by simp
  then show ?thesis
    using run len hist by blast
qed

theorem run_simulation_counts_every_trial_witness:
  "valid_config 2 6 3 \<and> (\<forall>k. 0 \<le> int k * 5) \<and>
   (\<exists>obs. run_simulation 2 6 3 (\<lambda>k. int k * 5) 0 (calloc_array (2 * 6 + 1)) =
      Some (0 + nat 3 * nat 2, obs) \<and>
    length obs = nat (2 * 6 + 1) \<and>
    (\<forall>k < length obs. obs ! k =
      int (card {m. m < nat 3 \<and> trial_sum (\<lambda>k. int k * 5) 0 (nat 2) 6 m = int k})) \<and>
    (\<Sum>s = 2..2 * 6. obs ! nat s) = 3) \<and>
   run_simulation 2 6 3 (\<lambda>k. int k * 5) 0 (calloc_array (2 * 6 + 1)) =
     Some (6, [0, 0, 0, 0, 0, 1, 0, 1, 0, 1, 0, 0, 0])"
proof -
  have h1: "valid_config 2 6 3"
    by (simp add: valid_config_def LLONG_MAX_def)
  have h2: "\<forall>k. 0 \<le> (\<lambda>k. int k * 5) k"
    by simp
  have v: "run_simulation 2 6 3 (\<lambda>k. int k * 5) 0 (calloc_array (2 * 6 + 1)) =
     Some (6, [0, 0, 0, 0, 0, 1, 0, 1, 0, 1, 0, 0, 0])"
    by code_simp
  show ?thesis
    using run_simulation_counts_every_trial [OF h1 h2, of 0] h1 h2 v by blast
qed

text \<open>
  Claim C10. For every valid config and every sequence of draws, the sum that a trial
  computes lies between \<open>num_dice\<close> and \<open>num_dice * num_sides\<close>, so that it is an index
  of the array of \<open>num_dice * num_sides + 1\<close> elements that \<^verbatim>\<open>main\<close> allocates; the
  simulation never leaves the array (it returns a result), and the elements below
  \<open>num_dice\<close> stay 0.
\<close>

theorem run_simulation_index_in_bounds:
  assumes "valid_config num_dice num_sides num_trials" and "\<forall>k. 0 \<le> rnd k"
  shows "(\<forall>p. \<exists>current_sum.
      roll_loop num_dice num_sides rnd p 0 0 = Some (p + nat num_dice, current_sum) \<and>
      num_dice \<le> current_sum \<and> current_sum \<le> num_dice * num_sides \<and>
      0 \<le> current_sum \<and>
      current_sum < int (length (calloc_array (num_dice * num_sides + 1) :: int list))) \<and>
    (\<exists>p' obs. run_simulation num_dice num_sides num_trials rnd pos
        (calloc_array (num_dice * num_sides + 1)) = Some (p', obs) \<and>
      length obs = nat (num_dice * num_sides + 1) \<and>
      (\<forall>k < nat num_dice. obs ! k = 0))"
proof -
  from assms(1) have v: "1 \<le> num_dice" "num_dice \<le> 10" "2 \<le> num_sides" "num_sides \<le> 100"
    by (auto simp: valid_config_def)
  have ds: "num_dice * 1 \<le> num_dice * num_sides"
    using v by (intro mult_left_mono) simp_all
  let ?ts = "trial_sum rnd pos (nat num_dice) num_sides"
  have bounds: "num_dice \<le> trial_sum rnd p (nat num_dice) num_sides m \<and>
      trial_sum rnd p (nat num_dice) num_sides m \<le> num_dice * num_sides" for p m
    using trial_sum_bounds [of num_sides "nat num_dice" rnd p m] v by simp
  have first: "\<exists>current_sum.
      roll_loop num_dice num_sides rnd p 0 0 = Some (p + nat num_dice, current_sum) \<and>
      num_dice \<le> current_sum \<and> current_sum \<le> num_dice * num_sides \<and>
      0 \<le> current_sum \<and>
      current_sum < int (length (calloc_array (num_dice * num_sides + 1) :: int list))" for p
  proof -
    have "roll_loop num_dice num_sides rnd p 0 0 =
        Some (p + nat num_dice, trial_sum rnd p (nat num_dice) num_sides 0)"
      using assms(2) v by (intro roll_loop_trial) simp_all
    then show ?thesis
      using bounds [of p 0] v ds by (simp add: calloc_array_def)
  qed
  obtain obs where run: "run_simulation num_dice num_sides num_trials rnd pos
        (calloc_array (num_dice * num_sides + 1)) =
      Some (pos + nat num_trials * nat num_dice, obs)"
    and len: "length obs = nat (num_dice * num_sides + 1)"
    and hist: "\<And>k. k < length obs \<Longrightarrow> obs ! k = int (card {m. m < nat num_trials \<and> ?ts m = int k})"
    using run_simulation_char [OF assms] by blast
  have "obs ! k = 0" if "k < nat num_dice" for k
  proof -
    have "k < length obs"
      using that len ds by simp
    moreover have "?ts m \<noteq> int k" for m
      using bounds [of pos m] that by linarith
    then have "{m. m < nat num_trials \<and> ?ts m = int k} = {}"
      by simp
    ultimately show ?thesis
      using hist [of k] by simp
  qed
  then show ?thesis
    using first run len by blast
qed

theorem run_simulation_index_in_bounds_witness:
  "valid_config 2 6 3 \<and> (\<forall>k. 0 \<le> int k * 5) \<and>
   (\<forall>p. \<exists>current_sum.
      roll_loop 2 6 (\<lambda>k. int k * 5) p 0 0 = Some (p + nat 2, current_sum) \<and>
      2 \<le> current_sum \<and> current_sum \<le> 2 * 6 \<and> 0 \<le> current_sum \<and>
      current_sum < int (length (calloc_array (2 * 6 + 1) :: int list))) \<and>
   (\<exists>p' obs. run_simulation 2 6 3 (\<lambda>k. int k * 5) 0 (calloc_array (2 * 6 + 1)) = Some (p', obs) \<and>
      length obs = nat (2 * 6 + 1) \<and> (\<forall>k < nat 2. obs ! k = 0)) \<and>
   roll_loop 2 6 (\<lambda>k. int k * 5) 0 0 0 = Some (2, 7)"
proof -
  have h1: "valid_config 2 6 3"
    by (simp add: valid_config_def LLONG_MAX_def)
  have h2: "\<forall>k. 0 \<le> (\<lambda>k. int k * 5) k"
    by simp
  have v: "roll_loop 2 6 (\<lambda>k. int k * 5) 0 0 0 = Some (2, 7)"
    by code_simp
  show ?thesis
    using run_simulation_index_in_bounds [OF h1 h2, of 0] h1 h2 v by blast
qed

end
